theory Spec2Isabelle
  imports Complex_Main "HOL-Library.Multiset" "HOL-Library.Product_Lexorder" "HOL-Library.Option_ord"
    "HOL-Library.Log_Nat"
begin

text \<open>
  The CPU scheduling page of the simulator: the \<open>MainForm\<close> component with its form
  schema and its submit handler \<open>onSubmit\<close>, which calls one of six scheduling
  functions and assembles the timeline that the chart and the summary table show.
  The handler is modelled from the source. The six scheduling functions and the
  summary table are not among the sources: the handler takes the functions as
  parameters, and the specification's description of them is modelled separately.
\<close>

section \<open>JavaScript numbers\<close>

text \<open>
  A JavaScript number is an IEEE 754 binary64 value. The model takes the finite
  ones as rationals: every such value is a rational, comparisons and \<open>Math.max\<close>
  are exact, and a sum is the exact sum rounded to the nearest value with a
  significand of 53 bits, ties to the even significand. NaN and the infinities are
  outside the model, and so is the limit of the exponent (magnitudes of 2 to the
  1024 and more).
\<close>

type_synonym number = rat

text \<open>
  A rational is a binary64 value when its denominator is a power of two and its
  numerator, without its trailing zero bits, has at most 53 bits.
\<close>

definition representable :: "number \<Rightarrow> bool" where
  "representable x =
     (case quotient_of x of
        (a, b) \<Rightarrow> b = 2 ^ nat (bitlen b - 1)
                  \<and> (bitlen \<bar>a\<bar> \<le> 53 \<or> \<bar>a\<bar> mod 2 ^ nat (bitlen \<bar>a\<bar> - 53) = 0))"

text \<open>The exponent \<open>e\<close> of a positive rational \<open>y\<close>: 2 to the \<open>e\<close> is at most \<open>y\<close>, which is below 2 to the \<open>e + 1\<close>.\<close>

definition binary_exponent :: "rat \<Rightarrow> int" where
  "binary_exponent y =
     (case quotient_of y of
        (a, b) \<Rightarrow> (let d = bitlen a - bitlen b in if 2 powi d \<le> y then d else d - 1))"

text \<open>Rounding to the nearest integer, a tie going to the even one.\<close>

definition round_even :: "rat \<Rightarrow> int" where
  "round_even x =
     (let f = \<lfloor>x\<rfloor>; d = x - of_int f
      in if d < 1 / 2 then f else if 1 / 2 < d then f + 1 else if even f then f else f + 1)"

text \<open>Rounding to binary64: a multiple of the unit in the last of the 53 places.\<close>

definition round64 :: "rat \<Rightarrow> number" where
  "round64 x =
     (if representable x then x
      else (let u = 2 powi (binary_exponent \<bar>x\<bar> - 52) in of_int (round_even (x / u)) * u))"

text \<open>The operator \<open>+\<close> of the source on two numbers.\<close>

definition js_add :: "number \<Rightarrow> number \<Rightarrow> number" where
  "js_add x y = round64 (x + y)"

text \<open>Whole numbers, and \<open>Number.MAX_SAFE_INTEGER\<close>, 2 to the 53 minus 1.\<close>

definition whole :: "number \<Rightarrow> bool" where
  "whole x = (of_int \<lfloor>x\<rfloor> = x)"

definition MAX_SAFE_INTEGER :: number where
  "MAX_SAFE_INTEGER = 9007199254740991"

section \<open>Data model\<close>

text \<open>
  The \<open>Process\<close> type of the CPU page. The id is \<open>prev.length + 1\<close>, an integer; the
  times are numbers; the optional \<open>priority\<close> is an \<open>option\<close>.
\<close>

record Process =
  process_id :: int
  arrival_time :: number
  burst_time :: number
  background :: string
  priority :: "int option"

text \<open>
  Process records are JavaScript objects, held by reference. The object store is a
  list of records; a reference is an index into it. Allocating a fresh object (an
  object literal such as \<open>{ ...proc, arrival_time: start }\<close>) appends to the store.
\<close>

type_synonym ref = nat
type_synonym store = "Process list"

text \<open>
  The six scheduling functions imported from \<open>@/lib/...\<close>. Each receives the array
  of process references and returns an array of references; it may allocate and it
  may write to the store. \<open>roundRobin\<close> takes the quantum as well. A call is taken
  to return; a scheduling function that loops forever is outside this model.
\<close>

type_synonym strategy = "store \<Rightarrow> ref list \<Rightarrow> store \<times> ref list"

record Strategies =
  firstComeFirstServe :: strategy
  shortestJobFirst :: strategy
  roundRobin :: "store \<Rightarrow> ref list \<Rightarrow> number \<Rightarrow> store \<times> ref list"
  shortestRemainingTimeFirst :: strategy
  nonPreemptivePriority :: strategy
  preemptivePriority :: strategy

text \<open>The values the form hands to \<open>onSubmit\<close>: \<open>z.infer<typeof FormSchema>\<close>.\<close>

record FormValues =
  algorithm :: string
  quantum :: "number option"

text \<open>The raw content of the two form fields, before validation.\<close>

record FormInput =
  algorithm_field :: "string option"
  quantum_field :: "number option"

text \<open>
  The state of the \<open>MainForm\<close> component that \<open>onSubmit\<close> reads or writes: the object
  store, the \<open>processes\<close> and \<open>timeline\<close> state variables, the error toasts shown so
  far, the validation messages of the form, and the number of scroll requests
  scheduled with \<open>setTimeout\<close>.
\<close>

record State =
  objects :: store
  processes :: "ref list"
  timeline :: "ref list"
  toasts :: "string list"
  formMessages :: "string list"
  scrolls :: nat

section \<open>Validation of the form\<close>

text \<open>
  \<open>FormSchema\<close>: the algorithm is a required string; the quantum is an optional
  number that must be at most 100. The result is the list of messages (\<open>Inl\<close>) or
  the parsed values (\<open>Inr\<close>).
\<close>

definition FormSchema :: "FormInput \<Rightarrow> string list + FormValues" where
  "FormSchema inp =
     (let algorithm_issues =
            (case algorithm_field inp of
               None \<Rightarrow> [''Please select an algorithm to display.'']
             | Some a \<Rightarrow> []);
          quantum_issues =
            (case quantum_field inp of
               None \<Rightarrow> []
             | Some q \<Rightarrow> if q \<le> 100 then [] else [''Quantum cannot be greater than 100.''])
      in case algorithm_field inp of
           None \<Rightarrow> Inl (algorithm_issues @ quantum_issues)
         | Some a \<Rightarrow>
             if quantum_issues = [] then Inr \<lparr>algorithm = a, quantum = quantum_field inp\<rparr>
             else Inl (algorithm_issues @ quantum_issues))"

section \<open>The submit handler\<close>

text \<open>The \<open>switch\<close> on \<open>values.algorithm\<close>: which function is called, and with which quantum.\<close>

datatype Call =
    CallFCFS
  | CallSJF
  | CallRR number
  | CallSRTF
  | CallNPPS
  | CallPPS

definition dispatch :: "FormValues \<Rightarrow> Call option" where
  "dispatch values =
     (if algorithm values = ''fCFS'' then Some CallFCFS
      else if algorithm values = ''SJF'' then Some CallSJF
      else if algorithm values = ''RR''
        then Some (CallRR (case quantum values of None \<Rightarrow> 0 | Some q \<Rightarrow> q))
      else if algorithm values = ''SRTF'' then Some CallSRTF
      else if algorithm values = ''NPPS'' then Some CallNPPS
      else if algorithm values = ''PPS'' then Some CallPPS
      else None)"

fun invoke :: "Strategies \<Rightarrow> Call \<Rightarrow> store \<Rightarrow> ref list \<Rightarrow> store \<times> ref list" where
  "invoke S CallFCFS h ps = firstComeFirstServe S h ps"
| "invoke S CallSJF h ps = shortestJobFirst S h ps"
| "invoke S (CallRR q) h ps = roundRobin S h ps q"
| "invoke S CallSRTF h ps = shortestRemainingTimeFirst S h ps"
| "invoke S CallNPPS h ps = nonPreemptivePriority S h ps"
| "invoke S CallPPS h ps = preemptivePriority S h ps"

text \<open>Step 1 of \<open>onSubmit\<close>: \<open>raw\<close> starts as the empty array and a matching case overwrites it.\<close>

definition raw_sequence :: "Strategies \<Rightarrow> FormValues \<Rightarrow> store \<Rightarrow> ref list \<Rightarrow> store \<times> ref list" where
  "raw_sequence S values h ps =
     (case dispatch values of
        None \<Rightarrow> (h, [])
      | Some c \<Rightarrow> invoke S c h ps)"

text \<open>
  Step 2, the two \<open>forEach\<close> bodies. The loop state is the store, the array \<open>tl\<close> (here \<open>tline\<close>)
  and \<open>currentTime\<close>. The preemptive branch pushes the very object it was given;
  the other branch pushes a fresh copy whose \<open>arrival_time\<close> is the start time.
\<close>

fun push_slice :: "store \<times> ref list \<times> number \<Rightarrow> ref \<Rightarrow> store \<times> ref list \<times> number" where
  "push_slice (h, tline, currentTime) slice =
     (h, tline @ [slice], js_add (arrival_time (h ! slice)) (burst_time (h ! slice)))"

fun push_stitched :: "store \<times> ref list \<times> number \<Rightarrow> ref \<Rightarrow> store \<times> ref list \<times> number" where
  "push_stitched (h, tline, currentTime) proc =
     (let start = max currentTime (arrival_time (h ! proc))
      in (h @ [(h ! proc)\<lparr>arrival_time := start\<rparr>], tline @ [length h],
          js_add start (burst_time (h ! proc))))"

definition build_timeline :: "bool \<Rightarrow> store \<Rightarrow> ref list \<Rightarrow> store \<times> ref list \<times> number" where
  "build_timeline isPreemptive h raw =
     (if isPreemptive then foldl push_slice (h, [], 0) raw
      else foldl push_stitched (h, [], 0) raw)"

definition onSubmit :: "Strategies \<Rightarrow> State \<Rightarrow> FormValues \<Rightarrow> State" where
  "onSubmit S st values =
     (if processes st = []
      then st\<lparr>toasts := toasts st @ [''No processes added!'']\<rparr>
      else
        (case raw_sequence S values (objects st) (processes st) of
           (h1, raw) \<Rightarrow>
             (case build_timeline (algorithm values = ''PPS'') h1 raw of
                (h2, tline, currentTime) \<Rightarrow>
                  st\<lparr>objects := h2, timeline := tline, scrolls := Suc (scrolls st)\<rparr>)))"

text \<open>
  \<open>form.handleSubmit(onSubmit)\<close>: the resolver validates the fields against
  \<open>FormSchema\<close>; \<open>onSubmit\<close> runs only on valid values, otherwise the messages are
  shown and nothing else happens.
\<close>

definition handleSubmit :: "Strategies \<Rightarrow> State \<Rightarrow> FormInput \<Rightarrow> State" where
  "handleSubmit S st inp =
     (case FormSchema inp of
        Inl issues \<Rightarrow> st\<lparr>formMessages := issues\<rparr>
      | Inr values \<Rightarrow> onSubmit S (st\<lparr>formMessages := []\<rparr>) values)"

text \<open>The results block is rendered exactly when \<open>timeline.length > 0\<close>.\<close>

definition results_rendered :: "State \<Rightarrow> bool" where
  "results_rendered st = (length (timeline st) > 0)"

section \<open>The assembly rule as the specification words it\<close>

text \<open>
  Section 4.8 of the specification, without the idle slices: walk the decision
  sequence with \<open>current_clock\<close>; each entry starts at
  \<open>max(current_clock, arrival_time)\<close> and moves the clock to that start plus the
  amount run, the sum being a sum of JavaScript numbers. A slice is a process record
  whose \<open>arrival_time\<close> is the start time and whose \<open>burst_time\<close> is the duration.
\<close>

fun stitched :: "number \<Rightarrow> Process list \<Rightarrow> Process list" where
  "stitched current_clock [] = []"
| "stitched current_clock (entry # rest) =
     (let start = max current_clock (arrival_time entry)
      in entry\<lparr>arrival_time := start\<rparr> # stitched (js_add start (burst_time entry)) rest)"

text \<open>
  The same rule in exact arithmetic: the sums are not rounded.
\<close>

fun stitched_exactly :: "number \<Rightarrow> Process list \<Rightarrow> Process list" where
  "stitched_exactly current_clock [] = []"
| "stitched_exactly current_clock (entry # rest) =
     (let start = max current_clock (arrival_time entry)
      in entry\<lparr>arrival_time := start\<rparr> # stitched_exactly (start + burst_time entry) rest)"

text \<open>
  The timeline invariant of section 3: starting from time \<open>t\<close>, every slice starts
  where the previous one ended, so that the slices cover \<open>[t, makespan)\<close> exactly.
\<close>

fun contiguous_from :: "number \<Rightarrow> Process list \<Rightarrow> bool" where
  "contiguous_from t [] = True"
| "contiguous_from t (s # ss) = (arrival_time s = t \<and> contiguous_from (t + burst_time s) ss)"

text \<open>
  The weaker property: starting from time \<open>t\<close>, no slice starts before the previous
  one has ended, and no slice has a negative duration. Gaps are allowed.
\<close>

fun separated_from :: "number \<Rightarrow> Process list \<Rightarrow> bool" where
  "separated_from t [] = True"
| "separated_from t (s # ss) =
     (t \<le> arrival_time s \<and> 0 \<le> burst_time s \<and> separated_from (arrival_time s + burst_time s) ss)"

text \<open>The records that a list of references denotes in a store.\<close>

definition records :: "store \<Rightarrow> ref list \<Rightarrow> Process list" where
  "records h rs = map (\<lambda>r. h ! r) rs"

section \<open>The six strategies, from the specification\<close>

text \<open>
  Modelled from the spec: the module \<open>@/lib/FirstComeFirstServe\<close> is not among the
  sources. Section 4.2: order the processes by \<open>arrival_time\<close> ascending, ties by id;
  each runs its full \<open>burst_time\<close>.
\<close>

definition FCFS_spec :: "Process list \<Rightarrow> Process list" where
  "FCFS_spec ps = sort_key (\<lambda>p. (arrival_time p, process_id p)) ps"

text \<open>
  Modelled from the spec: the selection loop shared by sections 4.3 and 4.6 (the
  modules \<open>@/lib/ShortestJobFirst\<close> and \<open>@/lib/PriorityNonPreemptive\<close> are not among
  the sources). Whenever the CPU is free, the ready process with the least key is run
  to completion; if no process is ready the clock advances to the next arrival.
\<close>

function select_loop :: "(Process \<Rightarrow> 'k::linorder) \<Rightarrow> number \<Rightarrow> Process list \<Rightarrow> Process list" where
  "select_loop key clock pending =
     (if pending = [] then []
      else if filter (\<lambda>p. arrival_time p \<le> clock) pending = []
        then select_loop key (min_list (map arrival_time pending)) pending
      else (let p = arg_min_list key (filter (\<lambda>p. arrival_time p \<le> clock) pending)
            in p # select_loop key (clock + burst_time p) (remove1 p pending)))"
  by pat_completeness auto
termination
proof (relation "measure (\<lambda>(key, clock, pending).
         2 * length pending + (if filter (\<lambda>p. arrival_time p \<le> clock) pending = [] then 1 else 0))",
       goal_cases)
  case 1
  show ?case by simp
next
  case (2 key clock pending)
  then have "min_list (map arrival_time pending) \<in> set (map arrival_time pending)"
    by (simp add: min_list_Min)
  then obtain q where "q \<in> set pending" "arrival_time q = min_list (map arrival_time pending)"
    by auto
  then have "filter (\<lambda>p. arrival_time p \<le> min_list (map arrival_time pending)) pending \<noteq> []"
    by (auto simp: filter_empty_conv intro!: bexI[of _ q])
  with 2 show ?case by simp
next
  case (3 key clock pending p)
  then have "p \<in> set (filter (\<lambda>p. arrival_time p \<le> clock) pending)"
    using arg_min_list_in by metis
  then have "p \<in> set pending" by simp
  then have "length (remove1 p pending) < length pending"
    by (simp add: length_remove1) (cases pending; simp)
  then show ?case by (simp split: if_splits)
qed

declare select_loop.simps [simp del]

text \<open>
  Modelled from the spec: section 4.3, shortest job first. The key is the burst time,
  then the arrival time, then the id.
\<close>

definition SJF_spec :: "Process list \<Rightarrow> Process list" where
  "SJF_spec ps = select_loop (\<lambda>p. (burst_time p, arrival_time p, process_id p)) 0 ps"

text \<open>
  Modelled from the spec: section 4.6, non-preemptive priority. The key is the
  priority (lower is more urgent), then the arrival time, then the id. The
  specification orders processes that carry a priority; here a missing priority
  sorts before every number.
\<close>

definition NPPS_spec :: "Process list \<Rightarrow> Process list" where
  "NPPS_spec ps = select_loop (\<lambda>p. (priority p, arrival_time p, process_id p)) 0 ps"

text \<open>
  The measure that shows the round-robin loop below to terminate: a queued copy
  weighs the number of quanta it still needs plus 1, a process still to arrive the
  number of quanta of its burst time plus 2.
\<close>

definition rr_weight :: "number \<Rightarrow> (Process \<times> number) list \<Rightarrow> Process list \<Rightarrow> nat" where
  "rr_weight quant queue future =
     sum_list (map (\<lambda>(p, r). Suc (nat \<lceil>r / quant\<rceil>)) queue)
     + sum_list (map (\<lambda>p. Suc (Suc (nat \<lceil>burst_time p / quant\<rceil>))) future)"

text \<open>
  Modelled from the spec: section 4.4, round robin (the module \<open>@/lib/RoundRobin\<close> is
  not among the sources). The queue holds runtime copies, a process with its
  remaining time; \<open>future\<close> holds the processes that have not arrived, in arrival
  order. The head runs for \<open>min(remaining_time, quantum)\<close>; the processes that arrived
  during the slice join the tail before the preempted process does. With an empty
  queue the clock advances to the next arrival. The specification defines the loop
  for a positive quantum only; for any other quantum no entry is produced.
\<close>

function rr_loop :: "number \<Rightarrow> number \<Rightarrow> (Process \<times> number) list \<Rightarrow> Process list \<Rightarrow> Process list" where
  "rr_loop quant clock [] [] = []"
| "rr_loop quant clock [] (f # fs) =
     (if quant \<le> 0 then []
      else rr_loop quant (arrival_time f)
             (map (\<lambda>p. (p, burst_time p)) (filter (\<lambda>p. arrival_time p \<le> arrival_time f) (f # fs)))
             (filter (\<lambda>p. \<not> arrival_time p \<le> arrival_time f) (f # fs)))"
| "rr_loop quant clock ((p, remaining) # rest) future =
     (if quant \<le> 0 then []
      else p\<lparr>burst_time := min remaining quant\<rparr> #
           rr_loop quant (clock + min remaining quant)
             ((rest @ map (\<lambda>x. (x, burst_time x))
                        (filter (\<lambda>x. arrival_time x \<le> clock + min remaining quant) future))
               @ (if remaining - min remaining quant > 0
                  then [(p, remaining - min remaining quant)] else []))
             (filter (\<lambda>x. \<not> arrival_time x \<le> clock + min remaining quant) future))"
  by pat_completeness auto
termination
proof (relation "measure (\<lambda>(quant, clock, queue, future). rr_weight quant queue future)", goal_cases)
  case 1
  show ?case by simp
next
  have split: "sum_list (map g (filter P xs)) + sum_list (map g (filter (\<lambda>x. \<not> P x) xs))
                 = (sum_list (map g xs) :: nat)" for g P and xs :: "Process list"
    by (induction xs) auto
  have moved: "sum_list (map (\<lambda>(p, r). Suc (nat \<lceil>r / quant\<rceil>)) (map (\<lambda>p. (p, burst_time p)) xs))
                 + length xs
               = sum_list (map (\<lambda>p. Suc (Suc (nat \<lceil>burst_time p / quant\<rceil>))) xs)" for quant xs
    by (induction xs) auto
  have arrive: "rr_weight quant (queue @ map (\<lambda>p. (p, burst_time p)) (filter P future))
                  (filter (\<lambda>x. \<not> P x) future) + length (filter P future)
                = rr_weight quant queue future"
    for quant queue P future
    using split [of "\<lambda>p. Suc (Suc (nat \<lceil>burst_time p / quant\<rceil>))" P future]
          moved [of quant "filter P future"]
    by (simp add: rr_weight_def)
  {
    case (2 quant clock f fs)
    have "0 < length (filter (\<lambda>p. arrival_time p \<le> arrival_time f) (f # fs))" by simp
    then show ?case
      using arrive [of quant "[]" "\<lambda>p. arrival_time p \<le> arrival_time f" "f # fs"]
      by simp
  next
    case (3 quant clock p remaining rest future)
    let ?a = "min remaining quant"
    let ?P = "\<lambda>x. arrival_time x \<le> clock + ?a"
    let ?requeue = "if remaining - ?a > 0 then [(p, remaining - ?a)] else []"
    have pos: "0 < quant" using 3 by simp
    have le: "rr_weight quant (rest @ map (\<lambda>x. (x, burst_time x)) (filter ?P future))
                (filter (\<lambda>x. \<not> ?P x) future) \<le> rr_weight quant rest future"
      using arrive [of quant rest ?P future] by linarith
    have again: "sum_list (map (\<lambda>(p, r). Suc (nat \<lceil>r / quant\<rceil>)) ?requeue)
                   < Suc (nat \<lceil>remaining / quant\<rceil>)"
    proof (cases "remaining - ?a > 0")
      case True
      then have a: "?a = quant" by (simp add: min_def split: if_splits)
      have "(remaining - quant) / quant = remaining / quant - 1"
        using pos by (simp add: diff_divide_distrib)
      then have c: "\<lceil>(remaining - quant) / quant\<rceil> = \<lceil>remaining / quant\<rceil> - 1" by simp
      have "0 < remaining / quant" using True a pos by simp
      then have "0 < \<lceil>remaining / quant\<rceil>" by simp
      then show ?thesis using True a c by simp
    next
      case False
      then show ?thesis by simp
    qed
    have "rr_weight quant ((rest @ map (\<lambda>x. (x, burst_time x)) (filter ?P future)) @ ?requeue)
            (filter (\<lambda>x. \<not> ?P x) future)
          = rr_weight quant (rest @ map (\<lambda>x. (x, burst_time x)) (filter ?P future))
              (filter (\<lambda>x. \<not> ?P x) future)
            + sum_list (map (\<lambda>(p, r). Suc (nat \<lceil>r / quant\<rceil>)) ?requeue)"
      by (simp add: rr_weight_def)
    moreover have "rr_weight quant ((p, remaining) # rest) future
          = Suc (nat \<lceil>remaining / quant\<rceil>) + rr_weight quant rest future"
      by (simp add: rr_weight_def)
    ultimately have "rr_weight quant ((rest @ map (\<lambda>x. (x, burst_time x)) (filter ?P future)) @ ?requeue)
            (filter (\<lambda>x. \<not> ?P x) future)
          < rr_weight quant ((p, remaining) # rest) future"
      using le again by linarith
    then show ?case by simp
  }
qed

declare rr_loop.simps [simp del]

text \<open>
  Modelled from the spec: section 4.4, the round-robin strategy. The run starts at
  time 0 with an empty queue and the processes in arrival order, ties by id.
\<close>

definition RR_spec :: "Process list \<Rightarrow> number \<Rightarrow> Process list" where
  "RR_spec ps quant = rr_loop quant 0 [] (sort_key (\<lambda>p. (arrival_time p, process_id p)) ps)"

text \<open>
  The measure that shows the preemptive loop below to terminate: the number of
  unfinished copies, then the number of them that arrive after the clock.
\<close>

definition later_count :: "number \<Rightarrow> (Process \<times> number) list \<Rightarrow> nat" where
  "later_count clock pool = length (filter (\<lambda>x. clock < arrival_time (fst x)) pool)"

text \<open>
  Modelled from the spec: the preemptive loop shared by sections 4.5 and 4.7 (the
  modules \<open>@/lib/ShortestRemainingTimeFirst\<close> and \<open>@/lib/PriorityPreemptive\<close> are not
  among the sources). The pool holds runtime copies of the unfinished processes. At
  every decision point the ready process with the least key runs until it completes
  or until the next arrival, whichever comes first; with no ready process the clock
  advances to the next arrival. Each step yields the process, the start time and the
  time run.
\<close>

function preempt_loop ::
  "(Process \<times> number \<Rightarrow> 'k::linorder) \<Rightarrow> number \<Rightarrow> (Process \<times> number) list \<Rightarrow> (Process \<times> number \<times> number) list" where
  "preempt_loop key clock pool =
     (if pool = [] then []
      else if filter (\<lambda>x. arrival_time (fst x) \<le> clock) pool = []
        then preempt_loop key (min_list (map (\<lambda>x. arrival_time (fst x)) pool)) pool
      else
        (let cur = arg_min_list key (filter (\<lambda>x. arrival_time (fst x) \<le> clock) pool);
             later = filter (\<lambda>t. clock < t) (map (\<lambda>x. arrival_time (fst x)) pool);
             run = (if later = [] then snd cur else min (snd cur) (min_list later - clock))
         in (fst cur, clock, run) #
            preempt_loop key (clock + run)
              (if snd cur - run > 0 then (fst cur, snd cur - run) # remove1 cur pool
               else remove1 cur pool)))"
  by pat_completeness auto
termination
proof (relation "measures [\<lambda>(key, clock, pool). length pool,
                           \<lambda>(key, clock, pool). later_count clock pool]", goal_cases)
  case 1
  show ?case by simp
next
  have fewer: "later_count t pool < later_count clock pool"
    if "clock < t" and "x \<in> set pool" and "arrival_time (fst x) = t"
    for t clock and x :: "Process \<times> number" and pool
  proof -
    have "length (filter (\<lambda>y. t < arrival_time (fst y)) ys)
            \<le> length (filter (\<lambda>y. clock < arrival_time (fst y)) ys)" for ys :: "(Process \<times> number) list"
      using that(1) by (induction ys) auto
    moreover have "x \<in> set ys \<Longrightarrow> length (filter (\<lambda>y. t < arrival_time (fst y)) ys)
            < length (filter (\<lambda>y. clock < arrival_time (fst y)) ys)" for ys
    proof (induction ys)
      case Nil
      then show ?case by simp
    next
      case (Cons y ys)
      have le: "length (filter (\<lambda>y. t < arrival_time (fst y)) ys)
            \<le> length (filter (\<lambda>y. clock < arrival_time (fst y)) ys)"
        using that(1) by (induction ys) auto
      show ?case
      proof (cases "x = y")
        case True
        then show ?thesis using le that(1,3) by auto
      next
        case False
        then show ?thesis using Cons that(1) by auto
      qed
    qed
    ultimately show ?thesis using that(2) by (simp add: later_count_def)
  qed
  {
    case (2 key clock pool)
    let ?t = "min_list (map (\<lambda>x. arrival_time (fst x)) pool)"
    have "?t \<in> set (map (\<lambda>x. arrival_time (fst x)) pool)"
      using 2 by (simp add: min_list_Min)
    then obtain x where x: "x \<in> set pool" "arrival_time (fst x) = ?t" by auto
    then have "clock < ?t" using 2(2) by (force simp: filter_empty_conv)
    from fewer [OF this x] show ?case by simp
  next
    case (3 key clock pool cur later run)
    then have "cur \<in> set (filter (\<lambda>x. arrival_time (fst x) \<le> clock) pool)"
      using arg_min_list_in by metis
    then have mem: "cur \<in> set pool" by simp
    then have len: "length (remove1 cur pool) < length pool"
      by (simp add: length_remove1) (cases pool; simp)
    show ?case
    proof (cases "snd cur - run > 0")
      case False
      then show ?thesis using len by simp
    next
      case True
      then have "run \<noteq> snd cur" by simp
      then have ne: "later \<noteq> []" and run: "run = min_list later - clock"
        using 3 by (auto simp: min_def split: if_splits)
      then have "min_list later \<in> set later" by (simp add: min_list_Min)
      then obtain x where x: "x \<in> set pool" "arrival_time (fst x) = min_list later"
          and gt: "clock < min_list later"
        using 3 by auto
      have t: "clock + run = min_list later" using run by simp
      have same: "later_count t ((fst cur, r) # remove1 cur pool) = later_count t pool" for t r
        using mem by (induction pool) (auto simp: later_count_def)
      have "length ((fst cur, snd cur - run) # remove1 cur pool) = length pool"
        using mem by (simp add: length_remove1) (cases pool; simp)
      moreover have "later_count (clock + run) ((fst cur, snd cur - run) # remove1 cur pool)
                       < later_count clock pool"
        unfolding same t using gt x by (rule fewer)
      ultimately show ?thesis using True by simp
    qed
  }
qed

declare preempt_loop.simps [simp del]

text \<open>
  Modelled from the spec: a decision sequence records each uninterrupted run segment,
  so two consecutive steps of the same process that touch are one segment.
\<close>

fun coalesce :: "(Process \<times> number \<times> number) list \<Rightarrow> (Process \<times> number \<times> number) list" where
  "coalesce ((p, s, a) # (p', s', a') # rest) =
     (if process_id p = process_id p' \<and> s + a = s'
      then coalesce ((p, s, a + a') # rest)
      else (p, s, a) # coalesce ((p', s', a') # rest))"
| "coalesce xs = xs"

text \<open>
  Modelled from the spec: the run segments of a preemptive strategy. The run starts
  at time 0 with a runtime copy of every process, its remaining time set to its
  burst time.
\<close>

definition run_segments ::
  "(Process \<times> number \<Rightarrow> 'k::linorder) \<Rightarrow> Process list \<Rightarrow> (Process \<times> number \<times> number) list" where
  "run_segments key ps = coalesce (preempt_loop key 0 (map (\<lambda>p. (p, burst_time p)) ps))"

text \<open>
  Modelled from the spec: a run segment as an entry of a decision sequence
  (section 4.1): the process with the time run in \<open>burst_time\<close>; the start time is
  left to the assembly pass.
\<close>

fun entry_of :: "Process \<times> number \<times> number \<Rightarrow> Process" where
  "entry_of (p, s, a) = p\<lparr>burst_time := a\<rparr>"

text \<open>
  Modelled from the spec: a run segment as a slice of a timeline (section 3): the
  start time is stamped into \<open>arrival_time\<close>, the duration into \<open>burst_time\<close>.
\<close>

fun slice_of :: "Process \<times> number \<times> number \<Rightarrow> Process" where
  "slice_of (p, s, a) = p\<lparr>arrival_time := s, burst_time := a\<rparr>"

text \<open>
  Modelled from the spec: section 4.5, shortest remaining time first. The key is the
  remaining time, then the arrival time, then the id.
\<close>

definition SRTF_spec :: "Process list \<Rightarrow> Process list" where
  "SRTF_spec ps =
     map entry_of (run_segments (\<lambda>(p, r). (r, arrival_time p, process_id p)) ps)"

text \<open>
  Modelled from the spec: section 4.7, preemptive priority. The key is the priority,
  then the arrival time, then the id. This strategy stamps the absolute start time of
  each slice itself.
\<close>

definition PPS_spec :: "Process list \<Rightarrow> Process list" where
  "PPS_spec ps =
     map slice_of (run_segments (\<lambda>(p, r). (priority p, arrival_time p, process_id p)) ps)"

text \<open>
  Modelled from the spec: section 4.1, a strategy works on its own copies and leaves
  the caller's records alone. The entries it returns are fresh objects, appended to
  the store.
\<close>

definition on_copies :: "(Process list \<Rightarrow> Process list) \<Rightarrow> strategy" where
  "on_copies f h ps =
     (h @ f (records h ps), [length h ..< length h + length (f (records h ps))])"

text \<open>
  Modelled from the spec: the six strategies of sections 4.2 to 4.7 as the functions
  that \<open>onSubmit\<close> calls.
\<close>

definition spec_strategies :: Strategies where
  "spec_strategies =
     \<lparr>firstComeFirstServe = on_copies FCFS_spec,
      shortestJobFirst = on_copies SJF_spec,
      roundRobin = (\<lambda>h ps quant. on_copies (\<lambda>xs. RR_spec xs quant) h ps),
      shortestRemainingTimeFirst = on_copies SRTF_spec,
      nonPreemptivePriority = on_copies NPPS_spec,
      preemptivePriority = on_copies PPS_spec\<rparr>"

section \<open>The metrics, from the specification\<close>

text \<open>
  Modelled from the spec: the metrics calculator (the \<open>SummaryTable\<close> component) is
  not among the sources. Section 3: the metrics of one process.
\<close>

record ProcessMetrics =
  pid :: int
  waiting_time :: number
  turnaround_time :: number

text \<open>
  Modelled from the spec: section 4.9, the completion time of a process is the end of
  its last slice in the timeline. A process that has no slice has none (\<open>None\<close>).
\<close>

definition completion_time :: "Process list \<Rightarrow> int \<Rightarrow> number option" where
  "completion_time tline k =
     (case filter (\<lambda>s. process_id s = k) tline of
        [] \<Rightarrow> None
      | s # ss \<Rightarrow> Some (arrival_time (last (s # ss)) + burst_time (last (s # ss))))"

text \<open>
  Modelled from the spec: section 3, the turnaround time is the completion time minus
  the arrival time, and the waiting time is the turnaround time minus the burst time.
\<close>

definition process_metrics :: "Process list \<Rightarrow> Process \<Rightarrow> ProcessMetrics option" where
  "process_metrics tline p =
     (case completion_time tline (process_id p) of
        None \<Rightarrow> None
      | Some c \<Rightarrow>
          Some \<lparr>pid = process_id p,
                waiting_time = (c - arrival_time p) - burst_time p,
                turnaround_time = c - arrival_time p\<rparr>)"

text \<open>Modelled from the spec: section 3, the metrics of a run.\<close>

record Metrics =
  per_process :: "ProcessMetrics list"
  total_waiting :: number
  total_turnaround :: number
  total_time :: number
  busy_time :: number
  cpu_utilization :: rat

text \<open>
  Modelled from the spec: the makespan (glossary) is the time from 0 to the end of
  the last slice.
\<close>

definition makespan :: "Process list \<Rightarrow> number" where
  "makespan tline = (if tline = [] then 0 else arrival_time (last tline) + burst_time (last tline))"

text \<open>
  Modelled from the spec: sections 3 and 4.9, the metrics of the original processes
  over a timeline. A process that appears in no slice is an error (\<open>None\<close>), never
  dropped silently.
\<close>

definition metrics :: "Process list \<Rightarrow> Process list \<Rightarrow> Metrics option" where
  "metrics original tline =
     (if list_all (\<lambda>p. process_metrics tline p \<noteq> None) original
      then
        (let rows = map (\<lambda>p. the (process_metrics tline p)) original;
             busy = sum_list (map burst_time original)
         in Some \<lparr>per_process = rows,
                  total_waiting = sum_list (map waiting_time rows),
                  total_turnaround = sum_list (map turnaround_time rows),
                  total_time = makespan tline,
                  busy_time = busy,
                  cpu_utilization = busy / makespan tline\<rparr>)
      else None)"

text \<open>
  Modelled from the spec: the metrics shown for a state are those of its process
  list over its timeline (\<open>originalProcesses\<close> and \<open>scheduledProcesses\<close> of the
  \<open>SummaryTable\<close>).
\<close>

definition shown_metrics :: "State \<Rightarrow> Metrics option" where
  "shown_metrics st =
     metrics (records (objects st) (processes st)) (records (objects st) (timeline st))"

section \<open>Valid input and the contracts of a schedule\<close>

text \<open>
  Modelled from the spec: the input contract of section 6. The process list is not
  empty, the ids are unique, every arrival time is at least 0 and every burst time is
  positive.
\<close>

definition valid_processes :: "Process list \<Rightarrow> bool" where
  "valid_processes ps =
     (ps \<noteq> [] \<and> distinct (map process_id ps)
      \<and> list_all (\<lambda>p. 0 \<le> arrival_time p \<and> 0 < burst_time p) ps)"

text \<open>
  The CPU time that the entries (or slices) of process \<open>k\<close> add up to in a sequence;
  the same for a list of runtime copies, over the remaining times.
\<close>

definition work :: "int \<Rightarrow> Process list \<Rightarrow> number" where
  "work k xs = sum_list (map (\<lambda>e. if process_id e = k then burst_time e else 0) xs)"

definition work_rt :: "int \<Rightarrow> (Process \<times> number) list \<Rightarrow> number" where
  "work_rt k pool = sum_list (map (\<lambda>x. if process_id (fst x) = k then snd x else 0) pool)"

text \<open>
  Modelled from the spec: the contract of a decision sequence (section 4.1). No
  entry runs for a negative time, every entry carries the id and the arrival time of
  a process of the list, and the entries of each process add up to its burst time.
\<close>

definition decision_for :: "Process list \<Rightarrow> Process list \<Rightarrow> bool" where
  "decision_for ps raw =
     (list_all (\<lambda>e. 0 \<le> burst_time e
                  \<and> list_ex (\<lambda>p. process_id p = process_id e \<and> arrival_time p = arrival_time e) ps) raw
      \<and> list_all (\<lambda>p. work (process_id p) raw = burst_time p) ps)"

text \<open>
  The contract of a timeline for a process list: no slice starts before 0 or before
  the previous slice has ended, every slice belongs to a process of the list and
  starts no earlier than that process arrives, and the slices of each process add up
  to its burst time.
\<close>

definition schedule_for :: "Process list \<Rightarrow> Process list \<Rightarrow> bool" where
  "schedule_for ps tline =
     (separated_from 0 tline
      \<and> list_all (\<lambda>e. list_ex (\<lambda>p. process_id p = process_id e \<and> arrival_time p \<le> arrival_time e) ps) tline
      \<and> list_all (\<lambda>p. work (process_id p) tline = burst_time p) ps)"

text \<open>
  Modelled from the spec: the sequence that each call of the \<open>switch\<close> yields, by
  sections 4.2 to 4.7.
\<close>

fun spec_sequence :: "Call \<Rightarrow> Process list \<Rightarrow> Process list" where
  "spec_sequence CallFCFS ps = FCFS_spec ps"
| "spec_sequence CallSJF ps = SJF_spec ps"
| "spec_sequence (CallRR quant) ps = RR_spec ps quant"
| "spec_sequence CallSRTF ps = SRTF_spec ps"
| "spec_sequence CallNPPS ps = NPPS_spec ps"
| "spec_sequence CallPPS ps = PPS_spec ps"

text \<open>
  The timeline of a call: the sequence of preemptive priority as it is, any other
  sequence through the assembly rule.
\<close>

definition spec_timeline :: "Call \<Rightarrow> Process list \<Rightarrow> Process list" where
  "spec_timeline c ps = (if c = CallPPS then spec_sequence c ps else stitched 0 (spec_sequence c ps))"

text \<open>
  The start rule of a timeline for a process list, from time \<open>t\<close>: every slice
  belongs to a process of the list and starts where the previous slice ended, or
  when its process arrives if that is later. So two consecutive slices are
  contiguous whenever the process of the second has arrived by the end of the first,
  and a gap is left otherwise. No slice has a negative duration.
\<close>

fun starts_by_rule :: "Process list \<Rightarrow> number \<Rightarrow> Process list \<Rightarrow> bool" where
  "starts_by_rule ps t [] = True"
| "starts_by_rule ps t (s # ss) =
     (list_ex (\<lambda>p. process_id p = process_id s \<and> arrival_time s = max t (arrival_time p)) ps
      \<and> 0 \<le> burst_time s
      \<and> starts_by_rule ps (arrival_time s + burst_time s) ss)"

text \<open>The same rule for run segments, which carry the process as it was submitted.\<close>

fun segments_by_rule :: "number \<Rightarrow> (Process \<times> number \<times> number) list \<Rightarrow> bool" where
  "segments_by_rule t [] = True"
| "segments_by_rule t ((p, s, a) # rest) =
     (s = max t (arrival_time p) \<and> 0 \<le> a \<and> segments_by_rule (s + a) rest)"

text \<open>
  Times within the safe range: every arrival time and every burst time is a whole
  number, and every arrival time plus the total burst time is at most
  \<open>Number.MAX_SAFE_INTEGER\<close>. No clock of a run then leaves the range in which sums
  of whole numbers are exact.
\<close>

definition safe_times :: "Process list \<Rightarrow> bool" where
  "safe_times ps =
     list_all (\<lambda>p. whole (arrival_time p) \<and> whole (burst_time p)
                  \<and> arrival_time p + sum_list (map burst_time ps) \<le> MAX_SAFE_INTEGER) ps"

text \<open>
  A valid run within the safe range: every reference of the process list is in the
  store, the processes are valid and their times within the safe range, the
  algorithm is one of the six, and the quantum of a round-robin run is a positive
  whole number.
\<close>

definition valid_run :: "State \<Rightarrow> FormValues \<Rightarrow> bool" where
  "valid_run st values =
     (list_all (\<lambda>r. r < length (objects st)) (processes st)
      \<and> valid_processes (records (objects st) (processes st))
      \<and> safe_times (records (objects st) (processes st))
      \<and> (case dispatch values of
            None \<Rightarrow> False
          | Some (CallRR quant) \<Rightarrow> 0 < quant \<and> whole quant
          | Some c \<Rightarrow> True))"

section \<open>Example inputs\<close>

text \<open>Scenario 1 of the specification: three processes, no timeline shown yet.\<close>

definition P1 :: Process where
  "P1 = \<lparr>process_id = 1, arrival_time = 0, burst_time = 5, background = ''#f00'', priority = None\<rparr>"
definition P2 :: Process where
  "P2 = \<lparr>process_id = 2, arrival_time = 1, burst_time = 3, background = ''#0f0'', priority = None\<rparr>"
definition P3 :: Process where
  "P3 = \<lparr>process_id = 3, arrival_time = 2, burst_time = 1, background = ''#00f'', priority = None\<rparr>"

definition scenario1 :: State where
  "scenario1 = \<lparr>objects = [P1, P2, P3], processes = [0, 1, 2], timeline = [],
                 toasts = [], formMessages = [], scrolls = 0\<rparr>"

text \<open>Scenario 4 of the specification: two processes with priorities.\<close>

definition R1 :: Process where
  "R1 = \<lparr>process_id = 1, arrival_time = 0, burst_time = 4, background = ''#f00'', priority = Some 2\<rparr>"
definition R2 :: Process where
  "R2 = \<lparr>process_id = 2, arrival_time = 2, burst_time = 2, background = ''#0f0'', priority = Some 1\<rparr>"

definition scenario4 :: State where
  "scenario4 = \<lparr>objects = [R1, R2], processes = [0, 1], timeline = [],
                 toasts = [], formMessages = [], scrolls = 0\<rparr>"

text \<open>Two processes, the second arriving after the first has finished.\<close>

definition G1 :: Process where
  "G1 = \<lparr>process_id = 1, arrival_time = 0, burst_time = 2, background = ''#f00'', priority = None\<rparr>"
definition G2 :: Process where
  "G2 = \<lparr>process_id = 2, arrival_time = 5, burst_time = 1, background = ''#0f0'', priority = None\<rparr>"

definition late_arrival :: State where
  "late_arrival = \<lparr>objects = [G1, G2], processes = [0, 1], timeline = [],
                    toasts = [], formMessages = [], scrolls = 0\<rparr>"

text \<open>
  Three processes that arrive at 0, the first with a burst time of 2 to the 53.
\<close>

definition H1 :: Process where
  "H1 = \<lparr>process_id = 1, arrival_time = 0, burst_time = 9007199254740992, background = ''#f00'',
          priority = None\<rparr>"
definition H2 :: Process where
  "H2 = \<lparr>process_id = 2, arrival_time = 0, burst_time = 1, background = ''#0f0'', priority = None\<rparr>"
definition H3 :: Process where
  "H3 = \<lparr>process_id = 3, arrival_time = 0, burst_time = 1, background = ''#00f'', priority = None\<rparr>"

definition long_burst :: State where
  "long_burst = \<lparr>objects = [H1, H2, H3], processes = [0, 1, 2], timeline = [],
                  toasts = [], formMessages = [], scrolls = 0\<rparr>"

text \<open>
  Three processes that arrive at 0, the first with a burst time of 2 to the 52 minus
  one half: a binary64 value, and the total burst time is below 2 to the 53.
\<close>

definition F1 :: Process where
  "F1 = \<lparr>process_id = 1, arrival_time = 0, burst_time = 9007199254740991 / 2, background = ''#f00'',
          priority = None\<rparr>"
definition F2 :: Process where
  "F2 = \<lparr>process_id = 2, arrival_time = 0, burst_time = 1, background = ''#0f0'', priority = None\<rparr>"
definition F3 :: Process where
  "F3 = \<lparr>process_id = 3, arrival_time = 0, burst_time = 1, background = ''#00f'', priority = None\<rparr>"

definition half_burst :: State where
  "half_burst = \<lparr>objects = [F1, F2, F3], processes = [0, 1, 2], timeline = [],
                  toasts = [], formMessages = [], scrolls = 0\<rparr>"

text \<open>One process that arrives at 2 to the 53 and needs 2 units.\<close>

definition K1 :: Process where
  "K1 = \<lparr>process_id = 1, arrival_time = 9007199254740992, burst_time = 2, background = ''#f00'',
          priority = None\<rparr>"

definition late_start :: State where
  "late_start = \<lparr>objects = [K1], processes = [0], timeline = [],
                  toasts = [], formMessages = [], scrolls = 0\<rparr>"

text \<open>One process that arrives at 2 to the 52 minus one half and needs 2 units.\<close>

definition Q1 :: Process where
  "Q1 = \<lparr>process_id = 1, arrival_time = 9007199254740991 / 2, burst_time = 2, background = ''#f00'',
          priority = None\<rparr>"

definition half_start :: State where
  "half_start = \<lparr>objects = [Q1], processes = [0], timeline = [],
                  toasts = [], formMessages = [], scrolls = 0\<rparr>"

section \<open>Sums of whole numbers\<close>

text \<open>
  A whole number below 2 to the 53 in magnitude is a binary64 value, so the sum of two
  whole numbers is exact as long as it stays within that range.
\<close>

lemma whole_Ints: "whole x \<longleftrightarrow> x \<in> \<int>"
  unfolding whole_def by (metis Ints_of_int of_int_floor)

lemma whole_add: "whole x \<Longrightarrow> whole y \<Longrightarrow> whole (x + y)"
  by (simp add: whole_Ints)

lemma whole_diff: "whole x \<Longrightarrow> whole y \<Longrightarrow> whole (x - y)"
  by (simp add: whole_Ints)

lemma whole_min: "whole x \<Longrightarrow> whole y \<Longrightarrow> whole (min x y)"
  by (simp add: min_def)

lemma whole_max: "whole x \<Longrightarrow> whole y \<Longrightarrow> whole (max x y)"
  by (simp add: max_def)

lemma representable_whole:
  assumes "whole x" and "\<bar>x\<bar> < 9007199254740992"
  shows "representable x"
proof -
  define n where "n = \<lfloor>x\<rfloor>"
  have x: "x = of_int n" using assms(1) unfolding whole_def n_def by (rule sym)
  have "\<bar>n\<bar> < 2 ^ 53" using assms(2) unfolding x by (simp flip: of_int_abs)
  then have "bitlen \<bar>n\<bar> \<le> 53" by (simp add: bitlen_le_iff_power)
  moreover have "quotient_of x = (n, 1)" unfolding x by (simp add: quotient_of_int flip: Rat.of_int_def)
  moreover have "bitlen 1 = 1" by (simp add: bitlen_alt_def)
  ultimately show ?thesis by (simp add: representable_def)
qed

lemma js_add_exact:
  "whole x \<Longrightarrow> whole y \<Longrightarrow> \<bar>x + y\<bar> < 9007199254740992 \<Longrightarrow> js_add x y = x + y"
  by (simp add: js_add_def round64_def representable_whole whole_add)

text \<open>Beyond that range a sum is rounded: 2 to the 53 plus 1 is 2 to the 53.\<close>

lemma js_add_rounds: "js_add 9007199254740992 1 = 9007199254740992"
  by code_simp

lemma js_add_power: "js_add 0 9007199254740992 = 9007199254740992"
  by code_simp

lemma js_add_half: "js_add 0 (9007199254740991 / 2) = 9007199254740991 / 2"
  by code_simp

lemma js_add_tie: "js_add (9007199254740991 / 2) 1 = 4503599627370496"
  by code_simp

section \<open>The two loops of the assembly pass\<close>


lemma records_append_fresh:
  "records (h @ xs) [length h ..< length h + length xs] = xs"
  by (rule nth_equalityI) (simp_all add: records_def nth_append)

lemma records_append_old:
  "\<forall>r\<in>set rs. r < length h \<Longrightarrow> records (h @ xs) rs = records h rs"
  by (simp add: records_def nth_append)

lemma foldl_push_slice:
  "foldl push_slice (h, tline, c) raw =
     (h, tline @ raw,
      if raw = [] then c else js_add (arrival_time (h ! last raw)) (burst_time (h ! last raw)))"
  by (induction raw arbitrary: tline c) auto

lemma foldl_push_stitched:
  assumes "\<forall>r\<in>set raw. r < length h"
  shows "fst (foldl push_stitched (h, tline, c) raw) = h @ stitched c (records h raw)
       \<and> fst (snd (foldl push_stitched (h, tline, c) raw))
           = tline @ [length h ..< length h + length raw]"
  using assms
proof (induction raw arbitrary: h tline c)
  case Nil
  then show ?case by (simp add: records_def)
next
  case (Cons r raw)
  let ?start = "max c (arrival_time (h ! r))"
  let ?x = "(h ! r)\<lparr>arrival_time := ?start\<rparr>"
  have old: "\<forall>r'\<in>set raw. r' < length h" using Cons.prems by simp
  then have valid: "\<forall>r'\<in>set raw. r' < length (h @ [?x])" by auto
  have same: "records (h @ [?x]) raw = records h raw"
    using old by (rule records_append_old)
  have step: "push_stitched (h, tline, c) r
                = (h @ [?x], tline @ [length h], js_add ?start (burst_time (h ! r)))"
    by (simp add: Let_def)
  have idx: "[length h] @ [length (h @ [?x]) ..< length (h @ [?x]) + length raw]
               = [length h ..< length h + length (r # raw)]"
    using upt_conv_Cons [of "length h" "length h + Suc (length raw)"] by simp
  show ?case
    using Cons.IH [OF valid, of "tline @ [length h]" "js_add ?start (burst_time (h ! r))"] idx
    by (simp only: foldl_Cons step same) (simp add: records_def Let_def)
qed


lemma build_timeline_stitched:
  assumes "\<forall>r\<in>set raw. r < length h"
  shows "build_timeline False h raw = (h2, tline, c) \<Longrightarrow>
           h2 = h @ stitched 0 (records h raw) \<and> tline = [length h ..< length h + length raw]"
  using foldl_push_stitched [OF assms, of "[]" 0]
  by (auto simp: build_timeline_def)

lemma build_timeline_preemptive:
  "build_timeline True h raw = (h2, tline, c) \<Longrightarrow> h2 = h \<and> tline = raw"
  by (simp add: build_timeline_def foldl_push_slice)

lemma length_stitched: "length (stitched c xs) = length xs"
  by (induction xs arbitrary: c) (simp_all add: Let_def)

section \<open>Empty input\<close>

text \<open>
  C6. With an empty process list, \<open>onSubmit\<close> only adds the error toast
  "No processes added!": the timeline, the object store and every other state
  variable keep their values, and the result does not depend on the scheduling
  functions, none of which is called.
\<close>

theorem onSubmit_empty_input:
  assumes "processes st = []"
  shows "onSubmit S st values = st\<lparr>toasts := toasts st @ [''No processes added!'']\<rparr>
         \<and> timeline (onSubmit S st values) = timeline st
         \<and> objects (onSubmit S st values) = objects st
         \<and> onSubmit S' st values = onSubmit S st values"
  using assms by (simp add: onSubmit_def)


theorem onSubmit_empty_input_witness:
  "processes (scenario1\<lparr>processes := []\<rparr>) = []
   \<and> onSubmit spec_strategies (scenario1\<lparr>processes := []\<rparr>) \<lparr>algorithm = ''fCFS'', quantum = None\<rparr>
       = scenario1\<lparr>processes := [], toasts := [''No processes added!'']\<rparr>"
  using onSubmit_empty_input [of "scenario1\<lparr>processes := []\<rparr>" spec_strategies
      "\<lparr>algorithm = ''fCFS'', quantum = None\<rparr>" spec_strategies]
  by (simp add: scenario1_def)

section \<open>The assembly pass for the strategies that return a decision sequence\<close>

lemma stitched_records:
  assumes "processes st \<noteq> []" and "algorithm values \<noteq> ''PPS''"
    and "raw_sequence S values (objects st) (processes st) = (h1, raw)"
    and "\<forall>r\<in>set raw. r < length h1"
  shows "records (objects (onSubmit S st values)) (timeline (onSubmit S st values))
           = stitched 0 (records h1 raw)"
proof -
  obtain h2 tline c where b: "build_timeline False h1 raw = (h2, tline, c)"
    by (metis prod_cases3)
  from build_timeline_stitched [OF assms(4) b]
  have h2: "h2 = h1 @ stitched 0 (records h1 raw)"
    and tl: "tline = [length h1 ..< length h1 + length raw]" by simp_all
  have "onSubmit S st values = st\<lparr>objects := h2, timeline := tline, scrolls := Suc (scrolls st)\<rparr>"
    using assms(1,2,3) b by (simp add: onSubmit_def)
  then have "records (objects (onSubmit S st values)) (timeline (onSubmit S st values))
               = records (h1 @ stitched 0 (records h1 raw))
                   [length h1 ..< length h1 + length (stitched 0 (records h1 raw))]"
    by (simp add: h2 tl length_stitched records_def)
  then show ?thesis by (simp only: records_append_fresh)
qed

text \<open>
  C3. For an algorithm other than \<open>PPS\<close>, the slices of the new timeline are the
  entries of the raw sequence, in order, each with its start time
  \<open>max(current_clock, arrival_time)\<close> written into \<open>arrival_time\<close>, where the clock
  starts at 0 and moves to the start plus the entry's \<open>burst_time\<close> after each entry.
\<close>

theorem onSubmit_stitches_entries:
  assumes "processes st \<noteq> []" and "algorithm values \<noteq> ''PPS''"
    and "raw_sequence S values (objects st) (processes st) = (h1, raw)"
    and "\<forall>r\<in>set raw. r < length h1"
  shows "records (objects (onSubmit S st values)) (timeline (onSubmit S st values))
           = stitched 0 (records h1 raw)"
  using assms by (rule stitched_records)

theorem onSubmit_stitches_entries_witness:
  "processes scenario1 \<noteq> []
   \<and> raw_sequence spec_strategies \<lparr>algorithm = ''fCFS'', quantum = None\<rparr>
        (objects scenario1) (processes scenario1) = ([P1, P2, P3, P1, P2, P3], [3, 4, 5])
   \<and> records (objects (onSubmit spec_strategies scenario1 \<lparr>algorithm = ''fCFS'', quantum = None\<rparr>))
        (timeline (onSubmit spec_strategies scenario1 \<lparr>algorithm = ''fCFS'', quantum = None\<rparr>))
       = [P1, P2\<lparr>arrival_time := 5\<rparr>, P3\<lparr>arrival_time := 8\<rparr>]"
proof -
  have raw: "raw_sequence spec_strategies \<lparr>algorithm = ''fCFS'', quantum = None\<rparr>
        (objects scenario1) (processes scenario1) = ([P1, P2, P3, P1, P2, P3], [3, 4, 5])"
    by (simp add: raw_sequence_def dispatch_def spec_strategies_def on_copies_def records_def
          FCFS_spec_def scenario1_def P1_def P2_def P3_def upt_rec)
  have ne: "processes scenario1 \<noteq> []" by (simp add: scenario1_def)
  show ?thesis
    using onSubmit_stitches_entries [of scenario1 "\<lparr>algorithm = ''fCFS'', quantum = None\<rparr>"
        spec_strategies "[P1, P2, P3, P1, P2, P3]" "[3, 4, 5]", OF ne _ raw] raw ne
    by (simp add: records_def P1_def P2_def P3_def js_add_exact whole_def)
qed


section \<open>The preemptive priority branch\<close>

lemma PPS_scen: "PPS_spec [R1, R2] = [R1\<lparr>burst_time := 2\<rparr>, R2, R1\<lparr>arrival_time := 4, burst_time := 2\<rparr>]"
  by (simp add: PPS_spec_def run_segments_def preempt_loop.simps R1_def R2_def)


lemma passthrough_records:
  assumes "processes st \<noteq> []" and "algorithm values = ''PPS''"
    and "preemptivePriority S (objects st) (processes st) = (h1, raw)"
  shows "timeline (onSubmit S st values) = raw
       \<and> objects (onSubmit S st values) = h1
       \<and> records (objects (onSubmit S st values)) (timeline (onSubmit S st values)) = records h1 raw"
proof -
  have r: "raw_sequence S values (objects st) (processes st) = (h1, raw)"
    using assms(2,3) by (simp add: raw_sequence_def dispatch_def)
  obtain h2 tline c where b: "build_timeline True h1 raw = (h2, tline, c)"
    by (metis prod_cases3)
  have "onSubmit S st values = st\<lparr>objects := h2, timeline := tline, scrolls := Suc (scrolls st)\<rparr>"
    using assms(1,2) r b by (simp add: onSubmit_def)
  then show ?thesis
    using build_timeline_preemptive [OF b] by simp
qed

text \<open>
  C4. For \<open>PPS\<close> the new timeline is the array of references the strategy returned,
  element for element, and the assembly pass writes nothing to the store: every
  slice is the very object the strategy produced, with every field as it was.
\<close>

theorem onSubmit_preemptive_passthrough:
  assumes "processes st \<noteq> []" and "algorithm values = ''PPS''"
    and "preemptivePriority S (objects st) (processes st) = (h1, raw)"
  shows "timeline (onSubmit S st values) = raw
       \<and> objects (onSubmit S st values) = h1
       \<and> records (objects (onSubmit S st values)) (timeline (onSubmit S st values)) = records h1 raw"
  using assms by (rule passthrough_records)

theorem onSubmit_preemptive_passthrough_witness:
  "processes scenario4 \<noteq> []
   \<and> preemptivePriority spec_strategies (objects scenario4) (processes scenario4)
       = ([R1, R2, R1\<lparr>burst_time := 2\<rparr>, R2, R1\<lparr>arrival_time := 4, burst_time := 2\<rparr>], [2, 3, 4])
   \<and> timeline (onSubmit spec_strategies scenario4 \<lparr>algorithm = ''PPS'', quantum = None\<rparr>) = [2, 3, 4]
   \<and> objects (onSubmit spec_strategies scenario4 \<lparr>algorithm = ''PPS'', quantum = None\<rparr>)
       = [R1, R2, R1\<lparr>burst_time := 2\<rparr>, R2, R1\<lparr>arrival_time := 4, burst_time := 2\<rparr>]"
proof -
  have raw: "preemptivePriority spec_strategies (objects scenario4) (processes scenario4)
       = ([R1, R2, R1\<lparr>burst_time := 2\<rparr>, R2, R1\<lparr>arrival_time := 4, burst_time := 2\<rparr>], [2, 3, 4])"
    by (simp add: spec_strategies_def on_copies_def records_def scenario4_def PPS_scen upt_rec)
  have ne: "processes scenario4 \<noteq> []" by (simp add: scenario4_def)
  show ?thesis
    using onSubmit_preemptive_passthrough [of scenario4 "\<lparr>algorithm = ''PPS'', quantum = None\<rparr>"
        spec_strategies _ _, OF ne _ raw] raw ne
    by simp
qed

section \<open>An algorithm that matches no case label\<close>

text \<open>
  C10. When the algorithm is none of \<open>fCFS\<close>, \<open>SJF\<close>, \<open>RR\<close>, \<open>SRTF\<close>, \<open>NPPS\<close>,
  \<open>PPS\<close> (and the process list is not empty, so that the switch is reached), the raw
  sequence stays empty, the timeline is set to the empty array, the results block is
  not rendered, and no toast or form message is added.
\<close>

theorem onSubmit_unrecognised_algorithm:
  assumes "processes st \<noteq> []"
    and "algorithm values \<notin> {''fCFS'', ''SJF'', ''RR'', ''SRTF'', ''NPPS'', ''PPS''}"
  shows "raw_sequence S values (objects st) (processes st) = (objects st, [])
       \<and> timeline (onSubmit S st values) = []
       \<and> \<not> results_rendered (onSubmit S st values)
       \<and> toasts (onSubmit S st values) = toasts st
       \<and> formMessages (onSubmit S st values) = formMessages st"
proof -
  have d: "dispatch values = None" using assms(2) by (simp add: dispatch_def)
  then have r: "raw_sequence S values (objects st) (processes st) = (objects st, [])"
    by (simp add: raw_sequence_def)
  have "onSubmit S st values = st\<lparr>objects := objects st, timeline := [], scrolls := Suc (scrolls st)\<rparr>"
    using assms r by (simp add: onSubmit_def build_timeline_def)
  then show ?thesis using r by (simp add: results_rendered_def)
qed

theorem onSubmit_unrecognised_algorithm_witness:
  "processes (scenario1\<lparr>timeline := [0]\<rparr>) \<noteq> []
   \<and> ''FCFS'' \<notin> {''fCFS'', ''SJF'', ''RR'', ''SRTF'', ''NPPS'', ''PPS''}
   \<and> timeline (onSubmit spec_strategies (scenario1\<lparr>timeline := [0]\<rparr>) \<lparr>algorithm = ''FCFS'', quantum = None\<rparr>) = []
   \<and> \<not> results_rendered (onSubmit spec_strategies (scenario1\<lparr>timeline := [0]\<rparr>)
          \<lparr>algorithm = ''FCFS'', quantum = None\<rparr>)
   \<and> toasts (onSubmit spec_strategies (scenario1\<lparr>timeline := [0]\<rparr>) \<lparr>algorithm = ''FCFS'', quantum = None\<rparr>) = []"
  using onSubmit_unrecognised_algorithm [of "scenario1\<lparr>timeline := [0]\<rparr>"
      "\<lparr>algorithm = ''FCFS'', quantum = None\<rparr>" spec_strategies]
  by (simp add: scenario1_def)

section \<open>The caller's process records\<close>

lemma build_timeline_extends:
  "\<exists>xs. fst (build_timeline isPreemptive h raw) = h @ xs"
proof -
  have "\<exists>xs. fst (foldl push_stitched (h, tline, c) raw) = h @ xs" for tline c
  proof (induction raw arbitrary: h tline c)
    case Nil
    then show ?case by simp
  next
    case (Cons r raw)
    obtain xs where "fst (foldl push_stitched
        (h @ [(h ! r)\<lparr>arrival_time := max c (arrival_time (h ! r))\<rparr>], tline @ [length h],
         js_add (max c (arrival_time (h ! r))) (burst_time (h ! r))) raw)
        = (h @ [(h ! r)\<lparr>arrival_time := max c (arrival_time (h ! r))\<rparr>]) @ xs"
      using Cons.IH by blast
    then show ?case by (simp add: Let_def)
  qed
  then show ?thesis
    by (cases isPreemptive) (simp_all add: build_timeline_def foldl_push_slice)
qed

lemma processes_frame:
  assumes "raw_sequence S values (objects st) (processes st) = (h1, raw)"
    and "\<forall>r\<in>set (processes st). r < length h1 \<and> h1 ! r = objects st ! r"
  shows "processes (onSubmit S st values) = processes st
       \<and> records (objects (onSubmit S st values)) (processes (onSubmit S st values))
           = records (objects st) (processes st)"
proof (cases "processes st = []")
  case True
  then show ?thesis by (simp add: onSubmit_def)
next
  case False
  obtain h2 tline c where b: "build_timeline (algorithm values = ''PPS'') h1 raw = (h2, tline, c)"
    by (metis prod_cases3)
  obtain xs where h2: "h2 = h1 @ xs"
    using build_timeline_extends [of "algorithm values = ''PPS''" h1 raw] b by auto
  have eq: "onSubmit S st values = st\<lparr>objects := h2, timeline := tline, scrolls := Suc (scrolls st)\<rparr>"
    using False assms(1) b by (simp add: onSubmit_def)
  have "\<forall>r\<in>set (processes st). h2 ! r = objects st ! r"
    using assms(2) by (simp add: h2 nth_append)
  then show ?thesis by (simp add: eq records_def)
qed

lemma invoke_spec: "invoke spec_strategies c h ps = on_copies (spec_sequence c) h ps"
  by (cases c) (simp_all add: spec_strategies_def on_copies_def)

lemma dispatch_PPS: "dispatch values = Some c \<Longrightarrow> (c = CallPPS) = (algorithm values = ''PPS'')"
  by (auto simp: dispatch_def split: if_splits)

lemma spec_submit_timeline:
  assumes "processes st \<noteq> []" and "dispatch values = Some c"
  shows "records (objects (onSubmit spec_strategies st values))
           (timeline (onSubmit spec_strategies st values))
         = spec_timeline c (records (objects st) (processes st))"
proof -
  let ?ps = "records (objects st) (processes st)"
  let ?h1 = "objects st @ spec_sequence c ?ps"
  let ?raw = "[length (objects st) ..< length (objects st) + length (spec_sequence c ?ps)]"
  have raw: "raw_sequence spec_strategies values (objects st) (processes st) = (?h1, ?raw)"
    using assms(2) by (simp add: raw_sequence_def invoke_spec on_copies_def)
  have vals: "records ?h1 ?raw = spec_sequence c ?ps"
    by (rule records_append_fresh)
  show ?thesis
  proof (cases "c = CallPPS")
    case True
    then have alg: "algorithm values = ''PPS''" using dispatch_PPS [OF assms(2)] by simp
    have "preemptivePriority spec_strategies (objects st) (processes st) = (?h1, ?raw)"
      using raw assms(2) True by (simp add: raw_sequence_def)
    from passthrough_records [OF assms(1) alg this]
    show ?thesis using vals True by (simp add: spec_timeline_def)
  next
    case False
    then have alg: "algorithm values \<noteq> ''PPS''" using dispatch_PPS [OF assms(2)] by simp
    have valid: "\<forall>r\<in>set ?raw. r < length ?h1" by simp
    from stitched_records [OF assms(1) alg raw valid]
    show ?thesis using vals False by (simp add: spec_timeline_def)
  qed
qed

lemma spec_submit_processes:
  assumes "list_all (\<lambda>r. r < length (objects st)) (processes st)"
  shows "records (objects (onSubmit spec_strategies st values))
           (processes (onSubmit spec_strategies st values))
         = records (objects st) (processes st)"
proof -
  obtain h1 raw where raw: "raw_sequence spec_strategies values (objects st) (processes st) = (h1, raw)"
    by (metis surj_pair)
  have "\<exists>xs. h1 = objects st @ xs"
    using raw by (auto simp: raw_sequence_def invoke_spec on_copies_def split: option.splits)
  then have "\<forall>r\<in>set (processes st). r < length h1 \<and> h1 ! r = objects st ! r"
    using assms by (auto simp: list_all_iff nth_append)
  from processes_frame [OF raw this] show ?thesis by (rule conjunct2)
qed

text \<open>
  C7. \<open>onSubmit\<close> leaves the \<open>processes\<close> array and every record it refers to as
  they were, for every algorithm: the assembly pass only appends fresh objects to
  the store. For scheduling functions taken as parameters this holds whenever the
  function called returns the caller's records unchanged, the contract of section
  4.1; for the strategies of the specification, which work on copies, it holds
  whenever the references of the process list are in the store.
\<close>

theorem onSubmit_preserves_processes:
  "(raw_sequence S values (objects st) (processes st) = (h1, raw)
      \<and> (\<forall>r\<in>set (processes st). r < length h1 \<and> h1 ! r = objects st ! r) \<longrightarrow>
        processes (onSubmit S st values) = processes st
        \<and> records (objects (onSubmit S st values)) (processes (onSubmit S st values))
            = records (objects st) (processes st))
   \<and> (list_all (\<lambda>r. r < length (objects st)) (processes st) \<longrightarrow>
        processes (onSubmit spec_strategies st values) = processes st
        \<and> records (objects (onSubmit spec_strategies st values))
              (processes (onSubmit spec_strategies st values))
            = records (objects st) (processes st))"
proof (intro conjI impI)
  assume a: "raw_sequence S values (objects st) (processes st) = (h1, raw)
      \<and> (\<forall>r\<in>set (processes st). r < length h1 \<and> h1 ! r = objects st ! r)"
  then have r: "raw_sequence S values (objects st) (processes st) = (h1, raw)"
    and f: "\<forall>r\<in>set (processes st). r < length h1 \<and> h1 ! r = objects st ! r"
    by blast+
  from processes_frame [OF r f]
  show "processes (onSubmit S st values) = processes st"
    and "records (objects (onSubmit S st values)) (processes (onSubmit S st values))
            = records (objects st) (processes st)"
    by blast+
next
  assume refs: "list_all (\<lambda>r. r < length (objects st)) (processes st)"
  show "processes (onSubmit spec_strategies st values) = processes st"
    by (simp add: onSubmit_def split: prod.splits)
  show "records (objects (onSubmit spec_strategies st values))
              (processes (onSubmit spec_strategies st values))
            = records (objects st) (processes st)"
    using refs by (rule spec_submit_processes)
qed

theorem onSubmit_preserves_processes_witness:
  "raw_sequence spec_strategies \<lparr>algorithm = ''RR'', quantum = Some 4\<rparr>
      (objects scenario1) (processes scenario1)
     = ([P1, P2, P3, P1\<lparr>burst_time := 4\<rparr>, P2, P3, P1\<lparr>burst_time := 1\<rparr>], [3, 4, 5, 6])
   \<and> processes (onSubmit spec_strategies scenario1 \<lparr>algorithm = ''RR'', quantum = Some 4\<rparr>) = [0, 1, 2]
   \<and> records (objects (onSubmit spec_strategies scenario1 \<lparr>algorithm = ''RR'', quantum = Some 4\<rparr>))
        (processes (onSubmit spec_strategies scenario1 \<lparr>algorithm = ''RR'', quantum = Some 4\<rparr>))
       = [P1, P2, P3]
   \<and> list_all (\<lambda>r. r < length (objects scenario1)) (processes scenario1)"
proof -
  let ?v = "\<lparr>algorithm = ''RR'', quantum = Some 4\<rparr>"
  let ?st = "onSubmit spec_strategies scenario1 ?v"
  let ?h1 = "[P1, P2, P3, P1\<lparr>burst_time := 4\<rparr>, P2, P3, P1\<lparr>burst_time := 1\<rparr>]"
  have raw: "raw_sequence spec_strategies ?v (objects scenario1) (processes scenario1)
     = (?h1, [3, 4, 5, 6])"
    by (simp add: raw_sequence_def dispatch_def spec_strategies_def on_copies_def records_def
          RR_spec_def rr_loop.simps scenario1_def P1_def P2_def P3_def upt_rec)
  have frame: "\<forall>r\<in>set (processes scenario1). r < length ?h1 \<and> ?h1 ! r = objects scenario1 ! r"
    by (simp add: scenario1_def)
  have refs: "list_all (\<lambda>r. r < length (objects scenario1)) (processes scenario1)"
    by (simp add: scenario1_def)
  from onSubmit_preserves_processes [of spec_strategies ?v scenario1 ?h1 "[3, 4, 5, 6]",
      THEN conjunct1, THEN mp, OF conjI [OF raw frame]]
  have a: "processes ?st = processes scenario1"
    and b: "records (objects ?st) (processes ?st) = records (objects scenario1) (processes scenario1)"
    by blast+
  have c: "processes scenario1 = [0, 1, 2]"
    and d: "records (objects scenario1) (processes scenario1) = [P1, P2, P3]"
    by (simp_all add: scenario1_def records_def)
  from a c have a': "processes ?st = [0, 1, 2]" by (rule trans)
  from b d have b': "records (objects ?st) (processes ?st) = [P1, P2, P3]" by (rule trans)
  show ?thesis
    using raw a' b' refs by blast
qed

section \<open>The quantum\<close>

lemma onSubmit_reports_nothing:
  "processes st \<noteq> [] \<Longrightarrow>
     toasts (onSubmit S st values) = toasts st
     \<and> formMessages (onSubmit S st values) = formMessages st"
  by (simp add: onSubmit_def split: prod.splits)

text \<open>
  A missing quantum and a negative quantum pass the schema when round robin is
  selected; \<open>roundRobin\<close> is then called with 0, or with the negative number, and no
  error is shown. A quantum above 100 is rejected also when the algorithm is not
  round robin.
\<close>

theorem quantum_not_rejected_counterexample:
  "FormSchema \<lparr>algorithm_field = Some ''RR'', quantum_field = None\<rparr>
     = Inr \<lparr>algorithm = ''RR'', quantum = None\<rparr>
   \<and> processes scenario1 \<noteq> []
   \<and> dispatch \<lparr>algorithm = ''RR'', quantum = None\<rparr> = Some (CallRR 0)
   \<and> toasts (handleSubmit spec_strategies scenario1
        \<lparr>algorithm_field = Some ''RR'', quantum_field = None\<rparr>) = []
   \<and> formMessages (handleSubmit spec_strategies scenario1
        \<lparr>algorithm_field = Some ''RR'', quantum_field = None\<rparr>) = []
   \<and> FormSchema \<lparr>algorithm_field = Some ''RR'', quantum_field = Some (- 3)\<rparr>
     = Inr \<lparr>algorithm = ''RR'', quantum = Some (- 3)\<rparr>
   \<and> dispatch \<lparr>algorithm = ''RR'', quantum = Some (- 3)\<rparr> = Some (CallRR (- 3))
   \<and> handleSubmit spec_strategies scenario1 \<lparr>algorithm_field = Some ''fCFS'', quantum_field = Some 101\<rparr>
     = scenario1\<lparr>formMessages := [''Quantum cannot be greater than 100.'']\<rparr>"
proof -
  have ne: "processes (scenario1\<lparr>formMessages := []\<rparr>) \<noteq> []" by (simp add: scenario1_def)
  show ?thesis
    using onSubmit_reports_nothing [OF ne, of spec_strategies "\<lparr>algorithm = ''RR'', quantum = None\<rparr>"]
    by (simp add: FormSchema_def dispatch_def handleSubmit_def scenario1_def)
qed

text \<open>
  C2, as the code has it. A quantum above 100 is rejected by the schema, whatever
  the algorithm, and \<open>onSubmit\<close> does not run. With round robin selected, a
  quantum that is missing or at most 100 (zero and negative numbers included) is
  accepted: \<open>roundRobin\<close> is called with it, a missing quantum replaced by 0, and no
  error is reported. For any other algorithm \<open>onSubmit\<close> does not depend on the
  quantum.
\<close>

theorem quantum_validation:
  "(quantum_field inp = Some q \<and> 100 < q \<longrightarrow>
      (\<exists>issues. FormSchema inp = Inl issues
         \<and> ''Quantum cannot be greater than 100.'' \<in> set issues
         \<and> handleSubmit S st inp = st\<lparr>formMessages := issues\<rparr>))
   \<and> (algorithm_field inp = Some ''RR''
        \<and> (quantum_field inp = None \<or> (\<exists>k. quantum_field inp = Some k \<and> k \<le> 100)) \<longrightarrow>
      FormSchema inp = Inr \<lparr>algorithm = ''RR'', quantum = quantum_field inp\<rparr>
      \<and> dispatch \<lparr>algorithm = ''RR'', quantum = quantum_field inp\<rparr>
          = Some (CallRR (case quantum_field inp of None \<Rightarrow> 0 | Some k \<Rightarrow> k))
      \<and> (processes st \<noteq> [] \<longrightarrow>
            toasts (handleSubmit S st inp) = toasts st
            \<and> formMessages (handleSubmit S st inp) = []))
   \<and> (algorithm values \<noteq> ''RR'' \<longrightarrow>
        onSubmit S st (values\<lparr>quantum := q'\<rparr>) = onSubmit S st values)"
proof (intro conjI impI)
  assume a: "quantum_field inp = Some q \<and> 100 < q"
  show "\<exists>issues. FormSchema inp = Inl issues
         \<and> ''Quantum cannot be greater than 100.'' \<in> set issues
         \<and> handleSubmit S st inp = st\<lparr>formMessages := issues\<rparr>"
    using a by (cases "algorithm_field inp") (simp_all add: FormSchema_def handleSubmit_def)
next
  assume a: "algorithm_field inp = Some ''RR''
        \<and> (quantum_field inp = None \<or> (\<exists>k. quantum_field inp = Some k \<and> k \<le> 100))"
  then show f: "FormSchema inp = Inr \<lparr>algorithm = ''RR'', quantum = quantum_field inp\<rparr>"
    by (auto simp: FormSchema_def)
  show "dispatch \<lparr>algorithm = ''RR'', quantum = quantum_field inp\<rparr>
          = Some (CallRR (case quantum_field inp of None \<Rightarrow> 0 | Some k \<Rightarrow> k))"
    by (simp add: dispatch_def)
  assume ne: "processes st \<noteq> []"
  then have "processes (st\<lparr>formMessages := []\<rparr>) \<noteq> []" by simp
  from onSubmit_reports_nothing [OF this]
  show "toasts (handleSubmit S st inp) = toasts st" and "formMessages (handleSubmit S st inp) = []"
    by (simp_all add: handleSubmit_def f)
next
  assume "algorithm values \<noteq> ''RR''"
  then have "raw_sequence S (values\<lparr>quantum := q'\<rparr>) = raw_sequence S values"
    by (intro ext) (simp add: raw_sequence_def dispatch_def)
  then show "onSubmit S st (values\<lparr>quantum := q'\<rparr>) = onSubmit S st values"
    by (simp add: onSubmit_def)
qed

theorem quantum_validation_witness:
  "handleSubmit spec_strategies scenario1 \<lparr>algorithm_field = Some ''RR'', quantum_field = Some 101\<rparr>
     = scenario1\<lparr>formMessages := [''Quantum cannot be greater than 100.'']\<rparr>
   \<and> FormSchema \<lparr>algorithm_field = Some ''RR'', quantum_field = Some 0\<rparr>
       = Inr \<lparr>algorithm = ''RR'', quantum = Some 0\<rparr>
   \<and> dispatch \<lparr>algorithm = ''RR'', quantum = Some 0\<rparr> = Some (CallRR 0)
   \<and> toasts (handleSubmit spec_strategies scenario1
        \<lparr>algorithm_field = Some ''RR'', quantum_field = Some 0\<rparr>) = []
   \<and> onSubmit spec_strategies scenario1 (\<lparr>algorithm = ''fCFS'', quantum = None\<rparr>\<lparr>quantum := Some 7\<rparr>)
       = onSubmit spec_strategies scenario1 \<lparr>algorithm = ''fCFS'', quantum = None\<rparr>"
proof -
  have ne: "processes scenario1 \<noteq> []" and t: "toasts scenario1 = []"
    by (simp_all add: scenario1_def)
  have big: "handleSubmit spec_strategies scenario1 \<lparr>algorithm_field = Some ''RR'', quantum_field = Some 101\<rparr>
     = scenario1\<lparr>formMessages := [''Quantum cannot be greater than 100.'']\<rparr>"
    using quantum_validation [of "\<lparr>algorithm_field = Some ''RR'', quantum_field = Some 101\<rparr>" 101
        spec_strategies scenario1 "\<lparr>algorithm = ''fCFS'', quantum = None\<rparr>" "Some 7"]
    by (auto simp: FormSchema_def)
  show ?thesis
    using quantum_validation [of "\<lparr>algorithm_field = Some ''RR'', quantum_field = Some 0\<rparr>" 0
        spec_strategies scenario1 "\<lparr>algorithm = ''fCFS'', quantum = None\<rparr>" "Some 7"] ne t big
    by simp
qed

section \<open>Missing priorities\<close>

text \<open>
  A process list without priorities, submitted with \<open>NPPS\<close>: the schema accepts, the
  switch calls \<open>nonPreemptivePriority\<close>, no toast and no form message appear, and the
  run completes (a scroll is scheduled).
\<close>

theorem missing_priority_not_rejected_counterexample:
  "priority (objects scenario1 ! 0) = None
   \<and> FormSchema \<lparr>algorithm_field = Some ''NPPS'', quantum_field = None\<rparr>
       = Inr \<lparr>algorithm = ''NPPS'', quantum = None\<rparr>
   \<and> processes scenario1 \<noteq> []
   \<and> dispatch \<lparr>algorithm = ''NPPS'', quantum = None\<rparr> = Some CallNPPS
   \<and> toasts (handleSubmit spec_strategies scenario1
        \<lparr>algorithm_field = Some ''NPPS'', quantum_field = None\<rparr>) = []
   \<and> formMessages (handleSubmit spec_strategies scenario1
        \<lparr>algorithm_field = Some ''NPPS'', quantum_field = None\<rparr>) = []
   \<and> scrolls (handleSubmit spec_strategies scenario1
        \<lparr>algorithm_field = Some ''NPPS'', quantum_field = None\<rparr>) = 1"
proof -
  have ne: "processes (scenario1\<lparr>formMessages := []\<rparr>) \<noteq> []" by (simp add: scenario1_def)
  have "scrolls (onSubmit spec_strategies (scenario1\<lparr>formMessages := []\<rparr>)
          \<lparr>algorithm = ''NPPS'', quantum = None\<rparr>) = 1"
    using ne by (simp add: onSubmit_def scenario1_def split: prod.splits)
  then show ?thesis
    using onSubmit_reports_nothing [OF ne, of spec_strategies "\<lparr>algorithm = ''NPPS'', quantum = None\<rparr>"]
    by (simp add: FormSchema_def dispatch_def handleSubmit_def scenario1_def P1_def)
qed

text \<open>
  C5, as the code has it. When \<open>NPPS\<close> or \<open>PPS\<close> is requested on a non-empty list,
  \<open>onSubmit\<close> makes no check of the priorities: whether or not a process lacks one,
  the priority strategy is called on the process list, no error is reported and the
  run completes.
\<close>

theorem priority_not_checked:
  assumes "processes st \<noteq> []"
    and "algorithm values = ''NPPS'' \<or> algorithm values = ''PPS''"
  shows "FormSchema \<lparr>algorithm_field = Some (algorithm values), quantum_field = None\<rparr>
           = Inr \<lparr>algorithm = algorithm values, quantum = None\<rparr>
       \<and> raw_sequence S values (objects st) (processes st)
           = (if algorithm values = ''NPPS''
              then nonPreemptivePriority S (objects st) (processes st)
              else preemptivePriority S (objects st) (processes st))
       \<and> toasts (onSubmit S st values) = toasts st
       \<and> formMessages (onSubmit S st values) = formMessages st
       \<and> scrolls (onSubmit S st values) = Suc (scrolls st)"
proof -
  have "scrolls (onSubmit S st values) = Suc (scrolls st)"
    using assms(1) by (simp add: onSubmit_def split: prod.splits)
  moreover have "raw_sequence S values (objects st) (processes st)
           = (if algorithm values = ''NPPS''
              then nonPreemptivePriority S (objects st) (processes st)
              else preemptivePriority S (objects st) (processes st))"
    using assms(2) by (auto simp: raw_sequence_def dispatch_def)
  ultimately show ?thesis
    using onSubmit_reports_nothing [OF assms(1), of S "values"]
    by (simp add: FormSchema_def)
qed

theorem priority_not_checked_witness:
  "processes scenario1 \<noteq> []
   \<and> map priority (records (objects scenario1) (processes scenario1)) = [None, None, None]
   \<and> raw_sequence spec_strategies \<lparr>algorithm = ''NPPS'', quantum = None\<rparr>
        (objects scenario1) (processes scenario1)
       = nonPreemptivePriority spec_strategies (objects scenario1) (processes scenario1)
   \<and> toasts (onSubmit spec_strategies scenario1 \<lparr>algorithm = ''NPPS'', quantum = None\<rparr>) = []
   \<and> scrolls (onSubmit spec_strategies scenario1 \<lparr>algorithm = ''NPPS'', quantum = None\<rparr>) = 1"
proof -
  have ne: "processes scenario1 \<noteq> []" by (simp add: scenario1_def)
  have pr: "map priority (records (objects scenario1) (processes scenario1)) = [None, None, None]"
    by (simp add: scenario1_def records_def P1_def P2_def P3_def)
  have s: "toasts scenario1 = []" "scrolls scenario1 = 0" by (simp_all add: scenario1_def)
  show ?thesis
    using priority_not_checked [OF ne, of "\<lparr>algorithm = ''NPPS'', quantum = None\<rparr>" spec_strategies]
      ne pr s
    by simp
qed


section \<open>Schedules\<close>

lemma work_Nil [simp]: "work k [] = 0"
  by (simp add: work_def)

lemma work_Cons [simp]:
  "work k (e # es) = (if process_id e = k then burst_time e else 0) + work k es"
  by (simp add: work_def)

lemma work_append [simp]: "work k (xs @ ys) = work k xs + work k ys"
  by (simp add: work_def)

lemma work_mset:
  assumes "mset xs = mset ys"
  shows "work k xs = work k ys"
proof -
  let ?g = "\<lambda>e. if process_id e = k then burst_time e else 0"
  have "sum_mset (mset (map ?g xs)) = sum_mset (mset (map ?g ys))"
    using assms by (simp only: mset_map)
  then show ?thesis by (simp only: work_def sum_mset_sum_list)
qed

lemma work_absent: "k \<notin> process_id ` set xs \<Longrightarrow> work k xs = 0"
  by (induction xs) auto

lemma work_distinct:
  "distinct (map process_id ps) \<Longrightarrow> p \<in> set ps \<Longrightarrow> work (process_id p) ps = burst_time p"
  by (induction ps) (auto simp: work_absent)

lemma work_filter_empty: "filter (\<lambda>s. process_id s = k) xs = [] \<Longrightarrow> work k xs = 0"
  by (induction xs) (auto split: if_splits)

lemma separated_from_mono: "separated_from t xs \<Longrightarrow> t' \<le> t \<Longrightarrow> separated_from t' xs"
  by (cases xs) auto

lemma separated_from_starts:
  "separated_from t xs \<Longrightarrow> e \<in> set xs \<Longrightarrow> t \<le> arrival_time e"
proof (induction xs arbitrary: t)
  case Nil
  then show ?case by simp
next
  case (Cons x xs)
  show ?case
  proof (cases "e = x")
    case True
    then show ?thesis using Cons.prems by simp
  next
    case False
    then have "arrival_time x + burst_time x \<le> arrival_time e"
      using Cons by auto
    then show ?thesis using Cons.prems by simp
  qed
qed

lemma stitched_exactly_separated:
  "list_all (\<lambda>e. 0 \<le> burst_time e) raw \<Longrightarrow> separated_from c (stitched_exactly c raw)"
proof (induction raw arbitrary: c)
  case Nil
  then show ?case by simp
next
  case (Cons e raw)
  then show ?case
    by (auto simp: Let_def intro: separated_from_mono)
qed

lemma work_stitched_exactly: "work k (stitched_exactly c raw) = work k raw"
  by (induction raw arbitrary: c) (simp_all add: Let_def)

lemma stitched_exactly_starts:
  "list_all (\<lambda>e. list_ex (\<lambda>p. process_id p = process_id e \<and> arrival_time p = arrival_time e) ps) raw
   \<Longrightarrow> list_all (\<lambda>e. list_ex (\<lambda>p. process_id p = process_id e \<and> arrival_time p \<le> arrival_time e) ps)
         (stitched_exactly c raw)"
proof (induction raw arbitrary: c)
  case Nil
  then show ?case by simp
next
  case (Cons e raw)
  then show ?case
    by (auto simp: Let_def list_ex_iff)
qed

lemma decision_schedule:
  assumes "decision_for ps raw"
  shows "schedule_for ps (stitched_exactly 0 raw)"
proof -
  have a: "list_all (\<lambda>e. 0 \<le> burst_time e) raw"
    and b: "list_all (\<lambda>e. list_ex (\<lambda>p. process_id p = process_id e
                                      \<and> arrival_time p = arrival_time e) ps) raw"
    and c: "list_all (\<lambda>p. work (process_id p) raw = burst_time p) ps"
    using assms by (simp_all add: decision_for_def list_all_iff)
  show ?thesis
    unfolding schedule_for_def
    using stitched_exactly_separated [OF a, of 0] stitched_exactly_starts [OF b, of 0] c
    by (simp add: work_stitched_exactly)
qed

lemma last_slice_end:
  assumes "separated_from t tline"
    and "\<forall>e\<in>set tline. process_id e = k \<longrightarrow> a \<le> arrival_time e"
    and "filter (\<lambda>s. process_id s = k) tline \<noteq> []"
  shows "a + work k tline
           \<le> arrival_time (last (filter (\<lambda>s. process_id s = k) tline))
             + burst_time (last (filter (\<lambda>s. process_id s = k) tline))"
  using assms
proof (induction tline arbitrary: t a)
  case Nil
  then show ?case by simp
next
  case (Cons x xs)
  let ?f = "filter (\<lambda>s. process_id s = k)"
  have sep: "separated_from (arrival_time x + burst_time x) xs" and nn: "0 \<le> burst_time x"
    using Cons.prems(1) by simp_all
  show ?case
  proof (cases "process_id x = k")
    case True
    show ?thesis
    proof (cases "?f xs = []")
      case True
      then have "work k xs = 0" by (rule work_filter_empty)
      then show ?thesis
        using \<open>process_id x = k\<close> True Cons.prems(2) by simp
    next
      case False
      have "\<forall>e\<in>set xs. process_id e = k \<longrightarrow> arrival_time x + burst_time x \<le> arrival_time e"
        using separated_from_starts [OF sep] by blast
      from Cons.IH [OF sep this False]
      show ?thesis
        using \<open>process_id x = k\<close> False Cons.prems(2) by simp
    qed
  next
    case False
    then have ne: "?f xs \<noteq> []" using Cons.prems(3) by simp
    have "\<forall>e\<in>set xs. process_id e = k \<longrightarrow> a \<le> arrival_time e"
      using Cons.prems(2) by simp
    from Cons.IH [OF sep this ne]
    show ?thesis using False by simp
  qed
qed

lemma schedule_completion:
  assumes "valid_processes ps" and "schedule_for ps tline" and "p \<in> set ps"
  shows "\<exists>c. completion_time tline (process_id p) = Some c \<and> arrival_time p + burst_time p \<le> c"
proof -
  let ?k = "process_id p"
  let ?f = "filter (\<lambda>s. process_id s = ?k) tline"
  have d: "distinct (map process_id ps)" and pos: "0 < burst_time p"
    using assms(1,3) by (auto simp: valid_processes_def list_all_iff)
  have w: "work ?k tline = burst_time p"
    using assms(2,3) by (auto simp: schedule_for_def list_all_iff)
  have ne: "?f \<noteq> []"
    using work_filter_empty [of ?k tline] w pos by auto
  have starts: "\<forall>e\<in>set tline. process_id e = ?k \<longrightarrow> arrival_time p \<le> arrival_time e"
  proof (intro ballI impI)
    fix e assume e: "e \<in> set tline" "process_id e = ?k"
    then obtain p' where p': "p' \<in> set ps" "process_id p' = process_id e" "arrival_time p' \<le> arrival_time e"
      using assms(2) by (auto simp: schedule_for_def list_all_iff list_ex_iff)
    have "inj_on process_id (set ps)" using d by (simp add: distinct_map)
    then have "p' = p"
      using p'(1,2) assms(3) e(2) by (auto dest: inj_onD)
    then show "arrival_time p \<le> arrival_time e" using p' by simp
  qed
  have sep: "separated_from 0 tline" using assms(2) by (simp add: schedule_for_def)
  from last_slice_end [OF sep starts ne] w
  have "arrival_time p + burst_time p \<le> arrival_time (last ?f) + burst_time (last ?f)" by simp
  then show ?thesis
    using ne by (cases ?f) (simp_all add: completion_time_def)
qed

section \<open>The strategies keep their contracts\<close>

lemma work_rt_Nil [simp]: "work_rt k [] = 0"
  by (simp add: work_rt_def)

lemma work_rt_Cons [simp]:
  "work_rt k (x # xs) = (if process_id (fst x) = k then snd x else 0) + work_rt k xs"
  by (simp add: work_rt_def)

lemma work_rt_append [simp]: "work_rt k (xs @ ys) = work_rt k xs + work_rt k ys"
  by (simp add: work_rt_def)

lemma work_rt_initial [simp]: "work_rt k (map (\<lambda>p. (p, burst_time p)) ps) = work k ps"
  by (induction ps) simp_all

lemma work_filter_split:
  "work k (filter P xs) + work k (filter (\<lambda>x. \<not> P x) xs) = work k xs"
  by (induction xs) simp_all

lemma work_rt_remove1:
  "x \<in> set pool \<Longrightarrow>
     work_rt k pool = (if process_id (fst x) = k then snd x else 0) + work_rt k (remove1 x pool)"
  by (induction pool) auto

subsection \<open>Permutations: FCFS, SJF, NPPS\<close>

lemma permutation_decision:
  assumes "valid_processes ps" and "mset raw = mset ps"
  shows "decision_for ps raw"
proof -
  have s: "set raw = set ps" using assms(2) by (rule mset_eq_setD)
  have d: "distinct (map process_id ps)"
    and pos: "\<forall>p\<in>set ps. 0 < burst_time p"
    using assms(1) by (auto simp: valid_processes_def list_all_iff)
  have "work (process_id p) raw = burst_time p" if "p \<in> set ps" for p
    using work_mset [OF assms(2), of "process_id p"] work_distinct [OF d that] by simp
  moreover have "0 \<le> burst_time e
      \<and> list_ex (\<lambda>p. process_id p = process_id e \<and> arrival_time p = arrival_time e) ps"
    if "e \<in> set raw" for e
    using that s pos by (auto simp: list_ex_iff intro: less_imp_le)
  ultimately show ?thesis
    by (simp add: decision_for_def list_all_iff)
qed

lemma mset_select_loop: "mset (select_loop key clock pending) = mset pending"
proof (induction key clock pending rule: select_loop.induct)
  case (1 key clock pending)
  show ?case
  proof (cases "pending = []")
    case True
    then show ?thesis by (simp add: select_loop.simps)
  next
    case ne: False
    show ?thesis
    proof (cases "filter (\<lambda>p. arrival_time p \<le> clock) pending = []")
      case True
      then show ?thesis
        using ne "1.IH"(1) by (subst select_loop.simps) simp
    next
      case False
      let ?p = "arg_min_list key (filter (\<lambda>p. arrival_time p \<le> clock) pending)"
      have "?p \<in> set (filter (\<lambda>p. arrival_time p \<le> clock) pending)"
        using False by (rule arg_min_list_in)
      then have mem: "?p \<in> set pending" by simp
      have "mset (select_loop key (clock + burst_time ?p) (remove1 ?p pending))
              = mset (remove1 ?p pending)"
        using ne False by (rule "1.IH"(2)) simp
      then show ?thesis
        using ne False mem by (subst select_loop.simps) (simp add: Let_def)
    qed
  qed
qed

lemma FCFS_decision: "valid_processes ps \<Longrightarrow> decision_for ps (FCFS_spec ps)"
  by (rule permutation_decision) (simp_all add: FCFS_spec_def)

lemma SJF_decision: "valid_processes ps \<Longrightarrow> decision_for ps (SJF_spec ps)"
  by (rule permutation_decision) (simp_all add: SJF_spec_def mset_select_loop)

lemma NPPS_decision: "valid_processes ps \<Longrightarrow> decision_for ps (NPPS_spec ps)"
  by (rule permutation_decision) (simp_all add: NPPS_spec_def mset_select_loop)


subsection \<open>Round robin\<close>

lemma rr_loop_work:
  "0 < quant \<Longrightarrow> work k (rr_loop quant clock queue future) = work_rt k queue + work k future"
proof (induction quant clock queue future rule: rr_loop.induct)
  case (1 quant clock)
  then show ?case by (simp add: rr_loop.simps)
next
  case (2 quant clock f fs)
  let ?P = "\<lambda>p. arrival_time p \<le> arrival_time f"
  have "work k (rr_loop quant clock [] (f # fs))
          = work k (filter ?P (f # fs)) + work k (filter (\<lambda>p. \<not> ?P p) (f # fs))"
    using 2 by (simp add: rr_loop.simps(2))
  then show ?case
    by (simp only: work_filter_split work_rt_Nil)
next
  case (3 quant clock p remaining rest future)
  let ?a = "min remaining quant"
  let ?P = "\<lambda>x. arrival_time x \<le> clock + ?a"
  have rq: "work_rt k (if remaining - ?a > 0 then [(p, remaining - ?a)] else [])
              + (if process_id p = k then ?a else 0)
            = (if process_id p = k then remaining else 0)"
    by (auto simp: min_def)
  have step: "work k (rr_loop quant clock ((p, remaining) # rest) future)
          = (if process_id p = k then ?a else 0)
            + (work_rt k rest + work k (filter ?P future)
               + work_rt k (if remaining - ?a > 0 then [(p, remaining - ?a)] else [])
               + work k (filter (\<lambda>x. \<not> ?P x) future))"
    using 3 by (simp add: rr_loop.simps(3))
  have hd: "work_rt k ((p, remaining) # rest)
              = (if process_id p = k then remaining else 0) + work_rt k rest"
    by simp
  show ?case
    unfolding step hd
    using rq work_filter_split [of k ?P future] by linarith
qed

lemma rr_loop_entries:
  assumes "0 < quant"
    and "\<forall>x\<in>set queue. 0 \<le> snd x" and "\<forall>f\<in>set future. 0 \<le> burst_time f"
    and "e \<in> set (rr_loop quant clock queue future)"
  shows "0 \<le> burst_time e
       \<and> (\<exists>p\<in>fst ` set queue \<union> set future.
             process_id p = process_id e \<and> arrival_time p = arrival_time e)"
  using assms
proof (induction quant clock queue future rule: rr_loop.induct)
  case (1 quant clock)
  then show ?case by (simp add: rr_loop.simps)
next
  case (2 quant clock f fs)
  let ?P = "\<lambda>p. arrival_time p \<le> arrival_time f"
  let ?queue = "map (\<lambda>p. (p, burst_time p)) (filter ?P (f # fs))"
  let ?future = "filter (\<lambda>p. \<not> ?P p) (f # fs)"
  have e: "e \<in> set (rr_loop quant (arrival_time f) ?queue ?future)"
    using "2.prems"(1,4) by (simp add: rr_loop.simps(2))
  have q: "\<forall>x\<in>set ?queue. 0 \<le> snd x" using "2.prems"(3) by auto
  have f: "\<forall>x\<in>set ?future. 0 \<le> burst_time x" using "2.prems"(3) by auto
  have "\<not> quant \<le> 0" using "2.prems"(1) by simp
  from "2.IH" [OF this "2.prems"(1) q f e]
  obtain p where "0 \<le> burst_time e" "p \<in> fst ` set ?queue \<union> set ?future"
      "process_id p = process_id e" "arrival_time p = arrival_time e"
    by blast
  moreover have "fst ` set ?queue \<union> set ?future \<subseteq> set (f # fs)"
    by (auto simp: image_iff)
  ultimately show ?case by blast
next
  case (3 quant clock p remaining rest future)
  let ?a = "min remaining quant"
  let ?P = "\<lambda>x. arrival_time x \<le> clock + ?a"
  let ?queue = "(rest @ map (\<lambda>x. (x, burst_time x)) (filter ?P future))
                  @ (if remaining - ?a > 0 then [(p, remaining - ?a)] else [])"
  let ?future = "filter (\<lambda>x. \<not> ?P x) future"
  have nq: "\<not> quant \<le> 0" using "3.prems"(1) by simp
  have cases: "e = p\<lparr>burst_time := ?a\<rparr> \<or> e \<in> set (rr_loop quant (clock + ?a) ?queue ?future)"
    using "3.prems"(1,4) by (simp add: rr_loop.simps(3))
  have rem: "0 \<le> remaining" using "3.prems"(2) by simp
  show ?case
  proof (cases "e = p\<lparr>burst_time := ?a\<rparr>")
    case True
    then show ?thesis using rem "3.prems"(1) by (auto simp: min_def)
  next
    case False
    then have e: "e \<in> set (rr_loop quant (clock + ?a) ?queue ?future)" using cases by simp
    have q: "\<forall>x\<in>set ?queue. 0 \<le> snd x" using "3.prems"(2,3) by auto
    have f: "\<forall>x\<in>set ?future. 0 \<le> burst_time x" using "3.prems"(3) by auto
    from "3.IH" [OF nq "3.prems"(1) q f e]
    obtain p' where "0 \<le> burst_time e" "p' \<in> fst ` set ?queue \<union> set ?future"
        "process_id p' = process_id e" "arrival_time p' = arrival_time e"
      by blast
    moreover have "fst ` set ?queue \<union> set ?future \<subseteq> fst ` set ((p, remaining) # rest) \<union> set future"
      by (auto simp: image_iff split: if_splits)
    ultimately show ?thesis by blast
  qed
qed

lemma RR_decision:
  assumes "valid_processes ps" and "0 < quant"
  shows "decision_for ps (RR_spec ps quant)"
proof -
  let ?sorted = "sort_key (\<lambda>p. (arrival_time p, process_id p)) ps"
  have d: "distinct (map process_id ps)"
    and pos: "\<forall>p\<in>set ps. 0 < burst_time p"
    using assms(1) by (auto simp: valid_processes_def list_all_iff)
  have "work (process_id p) (RR_spec ps quant) = burst_time p" if "p \<in> set ps" for p
  proof -
    have "work (process_id p) (RR_spec ps quant) = work (process_id p) ?sorted"
      using assms(2) by (simp add: RR_spec_def rr_loop_work)
    also have "\<dots> = work (process_id p) ps" by (rule work_mset) simp
    also have "\<dots> = burst_time p" using d that by (rule work_distinct)
    finally show ?thesis .
  qed
  moreover have "0 \<le> burst_time e
      \<and> list_ex (\<lambda>p. process_id p = process_id e \<and> arrival_time p = arrival_time e) ps"
    if "e \<in> set (RR_spec ps quant)" for e
  proof -
    have f: "\<forall>f\<in>set ?sorted. 0 \<le> burst_time f" using pos by (auto intro: less_imp_le)
    have e: "e \<in> set (rr_loop quant 0 [] ?sorted)" using that by (simp add: RR_spec_def)
    from rr_loop_entries [OF assms(2) _ f e]
    show ?thesis by (auto simp: list_ex_iff)
  qed
  ultimately show ?thesis
    by (simp add: decision_for_def list_all_iff)
qed


subsection \<open>The preemptive loop\<close>

lemma preempt_loop_Nil: "preempt_loop key clock [] = []"
  by (simp add: preempt_loop.simps)

lemma preempt_loop_idle:
  "pool \<noteq> [] \<Longrightarrow> filter (\<lambda>x. arrival_time (fst x) \<le> clock) pool = [] \<Longrightarrow>
     preempt_loop key clock pool
       = preempt_loop key (min_list (map (\<lambda>x. arrival_time (fst x)) pool)) pool"
  by (subst preempt_loop.simps) simp

lemma preempt_loop_run:
  "pool \<noteq> [] \<Longrightarrow> filter (\<lambda>x. arrival_time (fst x) \<le> clock) pool \<noteq> [] \<Longrightarrow>
     cur = arg_min_list key (filter (\<lambda>x. arrival_time (fst x) \<le> clock) pool) \<Longrightarrow>
     later = filter (\<lambda>t. clock < t) (map (\<lambda>x. arrival_time (fst x)) pool) \<Longrightarrow>
     run = (if later = [] then snd cur else min (snd cur) (min_list later - clock)) \<Longrightarrow>
     preempt_loop key clock pool
       = (fst cur, clock, run) #
         preempt_loop key (clock + run)
           (if snd cur - run > 0 then (fst cur, snd cur - run) # remove1 cur pool
            else remove1 cur pool)"
  by (subst preempt_loop.simps) (simp add: Let_def)

lemma preempt_run_bounds:
  assumes "later = filter (\<lambda>t. clock < t) ts"
    and "run = (if later = [] then r else min r (min_list later - clock))"
    and "0 \<le> (r::number)"
  shows "0 \<le> run \<and> run \<le> r"
proof (cases "later = []")
  case True
  then show ?thesis using assms by simp
next
  case False
  then have "min_list later \<in> set later" by (simp add: min_list_Min)
  then have "clock < min_list later" using assms(1) by auto
  then show ?thesis using assms False by (simp add: min_def)
qed

lemma preempt_work:
  "work k (map slice_of (preempt_loop key clock pool)) = work_rt k pool"
proof (induction key clock pool rule: preempt_loop.induct)
  case (1 key clock pool)
  show ?case
  proof (cases "pool = []")
    case True
    then show ?thesis by (simp add: preempt_loop_Nil)
  next
    case ne: False
    show ?thesis
    proof (cases "filter (\<lambda>x. arrival_time (fst x) \<le> clock) pool = []")
      case True
      then show ?thesis
        using ne "1.IH"(1) by (simp add: preempt_loop_idle)
    next
      case False
      define cur where "cur = arg_min_list key (filter (\<lambda>x. arrival_time (fst x) \<le> clock) pool)"
      define later where "later = filter (\<lambda>t. clock < t) (map (\<lambda>x. arrival_time (fst x)) pool)"
      define run where "run = (if later = [] then snd cur else min (snd cur) (min_list later - clock))"
      define pool' where "pool' = (if snd cur - run > 0 then (fst cur, snd cur - run) # remove1 cur pool
                                   else remove1 cur pool)"
      have "cur \<in> set (filter (\<lambda>x. arrival_time (fst x) \<le> clock) pool)"
        unfolding cur_def using False by (rule arg_min_list_in)
      then have mem: "cur \<in> set pool" by simp
      have unfold: "preempt_loop key clock pool = (fst cur, clock, run) # preempt_loop key (clock + run) pool'"
        unfolding pool'_def by (rule preempt_loop_run [OF ne False cur_def later_def run_def])
      have ih: "work k (map slice_of (preempt_loop key (clock + run) pool')) = work_rt k pool'"
        unfolding pool'_def by (rule "1.IH"(2) [OF ne False cur_def later_def run_def])
      have le: "run \<le> snd cur"
        unfolding run_def by (simp add: min_def)
      have bal: "work_rt k pool' + (if process_id (fst cur) = k then run else 0)
              = (if process_id (fst cur) = k then snd cur else 0) + work_rt k (remove1 cur pool)"
        using le by (auto simp: pool'_def)
      have "work k (map slice_of (preempt_loop key clock pool))
              = (if process_id (fst cur) = k then run else 0)
                + work k (map slice_of (preempt_loop key (clock + run) pool'))"
        by (simp add: unfold)
      then show ?thesis
        using bal ih work_rt_remove1 [OF mem, of k] by linarith
    qed
  qed
qed

lemma preempt_separated:
  "\<forall>x\<in>set pool. 0 \<le> snd x \<Longrightarrow>
     separated_from clock (map slice_of (preempt_loop key clock pool))"
proof (induction key clock pool rule: preempt_loop.induct)
  case (1 key clock pool)
  show ?case
  proof (cases "pool = []")
    case True
    then show ?thesis by (simp add: preempt_loop_Nil)
  next
    case ne: False
    show ?thesis
    proof (cases "filter (\<lambda>x. arrival_time (fst x) \<le> clock) pool = []")
      case True
      let ?t = "min_list (map (\<lambda>x. arrival_time (fst x)) pool)"
      have "?t \<in> set (map (\<lambda>x. arrival_time (fst x)) pool)"
        using ne by (simp add: min_list_Min)
      then obtain x where "x \<in> set pool" "arrival_time (fst x) = ?t" by auto
      then have "clock \<le> ?t" using True by (force simp: filter_empty_conv)
      moreover have "separated_from ?t (map slice_of (preempt_loop key ?t pool))"
        using ne True "1.prems" by (rule "1.IH"(1))
      ultimately show ?thesis
        using ne True by (simp add: preempt_loop_idle separated_from_mono)
    next
      case False
      define cur where "cur = arg_min_list key (filter (\<lambda>x. arrival_time (fst x) \<le> clock) pool)"
      define later where "later = filter (\<lambda>t. clock < t) (map (\<lambda>x. arrival_time (fst x)) pool)"
      define run where "run = (if later = [] then snd cur else min (snd cur) (min_list later - clock))"
      define pool' where "pool' = (if snd cur - run > 0 then (fst cur, snd cur - run) # remove1 cur pool
                                   else remove1 cur pool)"
      have "cur \<in> set (filter (\<lambda>x. arrival_time (fst x) \<le> clock) pool)"
        unfolding cur_def using False by (rule arg_min_list_in)
      then have mem: "cur \<in> set pool" by simp
      then have "0 \<le> snd cur" using "1.prems" by simp
      from preempt_run_bounds [OF later_def run_def this]
      have run: "0 \<le> run" by simp
      have unfold: "preempt_loop key clock pool = (fst cur, clock, run) # preempt_loop key (clock + run) pool'"
        unfolding pool'_def by (rule preempt_loop_run [OF ne False cur_def later_def run_def])
      have "\<forall>x\<in>set pool'. 0 \<le> snd x"
        using "1.prems" set_remove1_subset [of cur pool]
        by (auto simp: pool'_def split: if_splits)
      then have "separated_from (clock + run) (map slice_of (preempt_loop key (clock + run) pool'))"
        unfolding pool'_def by (intro "1.IH"(2) [OF ne False cur_def later_def run_def])
      then show ?thesis
        using run by (simp add: unfold)
    qed
  qed
qed

lemma preempt_members:
  "seg \<in> set (preempt_loop key clock pool) \<Longrightarrow>
     fst seg \<in> fst ` set pool \<and> arrival_time (fst seg) \<le> fst (snd seg)"
proof (induction key clock pool rule: preempt_loop.induct)
  case (1 key clock pool)
  show ?case
  proof (cases "pool = []")
    case True
    then show ?thesis using "1.prems" by (simp add: preempt_loop_Nil)
  next
    case ne: False
    show ?thesis
    proof (cases "filter (\<lambda>x. arrival_time (fst x) \<le> clock) pool = []")
      case True
      then show ?thesis
        using ne "1.IH"(1) "1.prems" by (simp add: preempt_loop_idle)
    next
      case False
      define cur where "cur = arg_min_list key (filter (\<lambda>x. arrival_time (fst x) \<le> clock) pool)"
      define later where "later = filter (\<lambda>t. clock < t) (map (\<lambda>x. arrival_time (fst x)) pool)"
      define run where "run = (if later = [] then snd cur else min (snd cur) (min_list later - clock))"
      define pool' where "pool' = (if snd cur - run > 0 then (fst cur, snd cur - run) # remove1 cur pool
                                   else remove1 cur pool)"
      have ready: "cur \<in> set (filter (\<lambda>x. arrival_time (fst x) \<le> clock) pool)"
        unfolding cur_def using False by (rule arg_min_list_in)
      then have mem: "cur \<in> set pool" and arrived: "arrival_time (fst cur) \<le> clock" by simp_all
      have unfold: "preempt_loop key clock pool = (fst cur, clock, run) # preempt_loop key (clock + run) pool'"
        unfolding pool'_def by (rule preempt_loop_run [OF ne False cur_def later_def run_def])
      have sub: "fst ` set pool' \<subseteq> fst ` set pool"
        using mem set_remove1_subset [of cur pool]
        by (auto simp: pool'_def split: if_splits)
      show ?thesis
      proof (cases "seg = (fst cur, clock, run)")
        case True
        then show ?thesis using mem arrived by simp
      next
        case False
        then have "seg \<in> set (preempt_loop key (clock + run) pool')"
          using "1.prems" by (simp add: unfold)
        then have "fst seg \<in> fst ` set pool' \<and> arrival_time (fst seg) \<le> fst (snd seg)"
          unfolding pool'_def by (intro "1.IH"(2) [OF ne \<open>filter _ pool \<noteq> []\<close> cur_def later_def run_def])
        then show ?thesis using sub by blast
      qed
    qed
  qed
qed


subsection \<open>Merging segments\<close>

lemma coalesce_work: "work k (map slice_of (coalesce segs)) = work k (map slice_of segs)"
  by (induction segs rule: coalesce.induct) auto

lemma coalesce_separated:
  "separated_from t (map slice_of segs) \<Longrightarrow> separated_from t (map slice_of (coalesce segs))"
proof (induction segs arbitrary: t rule: coalesce.induct)
  case (1 p s a p' s' a' rest)
  show ?case
  proof (cases "process_id p = process_id p' \<and> s + a = s'")
    case True
    from True have s': "s' = s + a" by simp
    have "separated_from t (map slice_of ((p, s, a + a') # rest))"
      using "1.prems" unfolding s' by (simp add: add.assoc)
    then have "separated_from t (map slice_of (coalesce ((p, s, a + a') # rest)))"
      using True by (rule "1.IH"(1) [rotated])
    moreover have "coalesce ((p, s, a) # (p', s', a') # rest) = coalesce ((p, s, a + a') # rest)"
      using True by simp
    ultimately show ?thesis by simp
  next
    case False
    have "separated_from (s + a) (map slice_of ((p', s', a') # rest))"
      using "1.prems" by simp
    then have "separated_from (s + a) (map slice_of (coalesce ((p', s', a') # rest)))"
      using False by (rule "1.IH"(2) [rotated])
    moreover have "coalesce ((p, s, a) # (p', s', a') # rest)
                     = (p, s, a) # coalesce ((p', s', a') # rest)"
      using False by auto
    ultimately show ?thesis
      using "1.prems" by simp
  qed
qed simp_all

lemma coalesce_members:
  "seg \<in> set (coalesce segs) \<Longrightarrow>
     \<exists>seg'\<in>set segs. fst seg' = fst seg \<and> fst (snd seg') = fst (snd seg)"
proof (induction segs arbitrary: seg rule: coalesce.induct)
  case (1 p s a p' s' a' rest)
  show ?case
  proof (cases "process_id p = process_id p' \<and> s + a = s'")
    case True
    then have "seg \<in> set (coalesce ((p, s, a + a') # rest))" using "1.prems" by simp
    from "1.IH"(1) [OF True this] show ?thesis by auto
  next
    case False
    then have "seg = (p, s, a) \<or> seg \<in> set (coalesce ((p', s', a') # rest))"
      using "1.prems" by auto
    then show ?thesis
    proof
      assume "seg = (p, s, a)"
      then show ?thesis by simp
    next
      assume "seg \<in> set (coalesce ((p', s', a') # rest))"
      from "1.IH"(2) [OF False this]
      obtain seg' where "seg' \<in> set ((p', s', a') # rest)"
          "fst seg' = fst seg" "fst (snd seg') = fst (snd seg)"
        by blast
      then show ?thesis by (intro bexI [of _ seg']) simp_all
    qed
  qed
qed simp_all

lemma work_entries: "work k (map entry_of segs) = work k (map slice_of segs)"
  by (induction segs) auto

lemma separated_from_nonneg: "separated_from t xs \<Longrightarrow> e \<in> set xs \<Longrightarrow> 0 \<le> burst_time e"
  by (induction xs arbitrary: t) auto

lemma run_segments_work:
  "work k (map slice_of (run_segments key ps)) = work k ps"
  by (simp add: run_segments_def coalesce_work preempt_work)

lemma run_segments_separated:
  assumes "valid_processes ps"
  shows "separated_from 0 (map slice_of (run_segments key ps))"
proof -
  have "\<forall>x\<in>set (map (\<lambda>p. (p, burst_time p)) ps). 0 \<le> snd x"
    using assms by (auto simp: valid_processes_def list_all_iff intro: less_imp_le)
  then show ?thesis
    unfolding run_segments_def by (intro coalesce_separated preempt_separated)
qed

lemma run_segments_members:
  assumes "seg \<in> set (run_segments key ps)"
  shows "fst seg \<in> set ps \<and> arrival_time (fst seg) \<le> fst (snd seg)"
proof -
  obtain seg' where seg': "seg' \<in> set (preempt_loop key 0 (map (\<lambda>p. (p, burst_time p)) ps))"
      "fst seg' = fst seg" "fst (snd seg') = fst (snd seg)"
    using coalesce_members assms unfolding run_segments_def by blast
  from preempt_members [OF seg'(1)] seg'(2,3)
  show ?thesis by (auto simp: image_iff)
qed

lemma SRTF_decision:
  assumes "valid_processes ps"
  shows "decision_for ps (SRTF_spec ps)"
proof -
  let ?segs = "run_segments (\<lambda>(p, r). (r, arrival_time p, process_id p)) ps"
  have d: "distinct (map process_id ps)"
    using assms by (simp add: valid_processes_def)
  have "work (process_id p) (SRTF_spec ps) = burst_time p" if "p \<in> set ps" for p
    using work_distinct [OF d that]
    by (simp add: SRTF_spec_def work_entries run_segments_work)
  moreover have "0 \<le> burst_time e
      \<and> list_ex (\<lambda>p. process_id p = process_id e \<and> arrival_time p = arrival_time e) ps"
    if "e \<in> set (SRTF_spec ps)" for e
  proof -
    from that have "e \<in> entry_of ` set ?segs" by (simp add: SRTF_spec_def)
    then obtain seg where seg: "seg \<in> set ?segs" and e: "e = entry_of seg"
      by blast
    obtain p s a where psa: "seg = (p, s, a)" by (cases seg)
    have "slice_of seg \<in> set (map slice_of ?segs)" using seg by simp
    then have "0 \<le> burst_time (slice_of seg)"
      using run_segments_separated [OF assms] separated_from_nonneg by blast
    moreover have "p \<in> set ps" using run_segments_members [OF seg] psa by simp
    ultimately show ?thesis using e psa by (auto simp: list_ex_iff)
  qed
  ultimately show ?thesis
    by (simp add: decision_for_def list_all_iff)
qed

lemma PPS_schedule:
  assumes "valid_processes ps"
  shows "schedule_for ps (PPS_spec ps)"
proof -
  let ?segs = "run_segments (\<lambda>(p, r). (priority p, arrival_time p, process_id p)) ps"
  have d: "distinct (map process_id ps)"
    using assms by (simp add: valid_processes_def)
  have "work (process_id p) (PPS_spec ps) = burst_time p" if "p \<in> set ps" for p
    using work_distinct [OF d that]
    by (simp add: PPS_spec_def run_segments_work)
  moreover have "list_ex (\<lambda>p. process_id p = process_id e \<and> arrival_time p \<le> arrival_time e) ps"
    if "e \<in> set (PPS_spec ps)" for e
  proof -
    from that have "e \<in> slice_of ` set ?segs" by (simp add: PPS_spec_def)
    then obtain seg where seg: "seg \<in> set ?segs" and e: "e = slice_of seg"
      by blast
    obtain p s a where psa: "seg = (p, s, a)" by (cases seg)
    from run_segments_members [OF seg] e psa
    show ?thesis by (auto simp: list_ex_iff)
  qed
  moreover have "separated_from 0 (PPS_spec ps)"
    unfolding PPS_spec_def using assms by (rule run_segments_separated)
  ultimately show ?thesis
    by (simp add: schedule_for_def list_all_iff)
qed

section \<open>Runs with the strategies of the specification\<close>

subsection \<open>Whole numbers stay whole\<close>

lemma rr_loop_whole:
  assumes "whole quant"
    and "\<forall>x\<in>set queue. whole (snd x)" and "\<forall>f\<in>set future. whole (burst_time f)"
    and "e \<in> set (rr_loop quant clock queue future)"
  shows "whole (burst_time e)"
  using assms
proof (induction quant clock queue future rule: rr_loop.induct)
  case (1 quant clock)
  then show ?case by (simp add: rr_loop.simps)
next
  case (2 quant clock f fs)
  let ?P = "\<lambda>p. arrival_time p \<le> arrival_time f"
  let ?queue = "map (\<lambda>p. (p, burst_time p)) (filter ?P (f # fs))"
  let ?future = "filter (\<lambda>p. \<not> ?P p) (f # fs)"
  have nq: "\<not> quant \<le> 0" using "2.prems"(4) by (auto simp: rr_loop.simps(2) split: if_splits)
  then have e: "e \<in> set (rr_loop quant (arrival_time f) ?queue ?future)"
    using "2.prems"(4) by (simp add: rr_loop.simps(2))
  have q: "\<forall>x\<in>set ?queue. whole (snd x)" using "2.prems"(3) by auto
  have f: "\<forall>x\<in>set ?future. whole (burst_time x)" using "2.prems"(3) by auto
  from "2.IH" [OF nq "2.prems"(1) q f e] show ?case .
next
  case (3 quant clock p remaining rest future)
  let ?a = "min remaining quant"
  let ?P = "\<lambda>x. arrival_time x \<le> clock + ?a"
  let ?queue = "(rest @ map (\<lambda>x. (x, burst_time x)) (filter ?P future))
                  @ (if remaining - ?a > 0 then [(p, remaining - ?a)] else [])"
  let ?future = "filter (\<lambda>x. \<not> ?P x) future"
  have nq: "\<not> quant \<le> 0" using "3.prems"(4) by (auto simp: rr_loop.simps(3) split: if_splits)
  have rem: "whole remaining" using "3.prems"(2) by simp
  then have wa: "whole ?a" using "3.prems"(1) by (rule whole_min)
  have cases: "e = p\<lparr>burst_time := ?a\<rparr> \<or> e \<in> set (rr_loop quant (clock + ?a) ?queue ?future)"
    using nq "3.prems"(4) by (simp add: rr_loop.simps(3))
  show ?case
  proof (cases "e = p\<lparr>burst_time := ?a\<rparr>")
    case True
    then show ?thesis using wa by simp
  next
    case False
    then have e: "e \<in> set (rr_loop quant (clock + ?a) ?queue ?future)" using cases by simp
    have q: "\<forall>x\<in>set ?queue. whole (snd x)"
      using "3.prems"(2,3) whole_diff [OF rem wa] by auto
    have f: "\<forall>x\<in>set ?future. whole (burst_time x)" using "3.prems"(3) by auto
    from "3.IH" [OF nq "3.prems"(1) q f e] show ?thesis .
  qed
qed

lemma min_list_whole:
  "xs \<noteq> [] \<Longrightarrow> \<forall>x\<in>set xs. whole x \<Longrightarrow> whole (min_list xs)"
  using min_list_Min [of xs] Min_in [of "set xs"] by auto

lemma preempt_whole:
  assumes "whole clock"
    and "\<forall>x\<in>set pool. whole (snd x) \<and> whole (arrival_time (fst x))"
    and "seg \<in> set (preempt_loop key clock pool)"
  shows "whole (snd (snd seg))"
  using assms
proof (induction key clock pool rule: preempt_loop.induct)
  case (1 key clock pool)
  show ?case
  proof (cases "pool = []")
    case True
    then show ?thesis using "1.prems" by (simp add: preempt_loop_Nil)
  next
    case ne: False
    have arrivals: "\<forall>t\<in>set (map (\<lambda>x. arrival_time (fst x)) pool). whole t"
      using "1.prems"(2) by auto
    show ?thesis
    proof (cases "filter (\<lambda>x. arrival_time (fst x) \<le> clock) pool = []")
      case True
      let ?t = "min_list (map (\<lambda>x. arrival_time (fst x)) pool)"
      have "whole ?t" using ne arrivals by (intro min_list_whole) simp_all
      moreover have "seg \<in> set (preempt_loop key ?t pool)"
        using "1.prems"(3) ne True by (simp add: preempt_loop_idle)
      ultimately show ?thesis
        using ne True "1.prems"(2) by (intro "1.IH"(1))
    next
      case False
      define cur where "cur = arg_min_list key (filter (\<lambda>x. arrival_time (fst x) \<le> clock) pool)"
      define later where "later = filter (\<lambda>t. clock < t) (map (\<lambda>x. arrival_time (fst x)) pool)"
      define run where "run = (if later = [] then snd cur else min (snd cur) (min_list later - clock))"
      define pool' where "pool' = (if snd cur - run > 0 then (fst cur, snd cur - run) # remove1 cur pool
                                   else remove1 cur pool)"
      have "cur \<in> set (filter (\<lambda>x. arrival_time (fst x) \<le> clock) pool)"
        unfolding cur_def using False by (rule arg_min_list_in)
      then have mem: "cur \<in> set pool" by simp
      then have wc: "whole (snd cur)" "whole (arrival_time (fst cur))" using "1.prems"(2) by auto
      have "whole (min_list later)" if "later \<noteq> []"
        using that arrivals by (intro min_list_whole) (auto simp: later_def)
      then have wr: "whole run"
        using wc(1) "1.prems"(1) by (auto simp: run_def intro: whole_min whole_diff)
      have unfold: "preempt_loop key clock pool = (fst cur, clock, run) # preempt_loop key (clock + run) pool'"
        unfolding pool'_def by (rule preempt_loop_run [OF ne False cur_def later_def run_def])
      show ?thesis
      proof (cases "seg = (fst cur, clock, run)")
        case True
        then show ?thesis using wr by simp
      next
        case other: False
        then have seg: "seg \<in> set (preempt_loop key (clock + run) pool')"
          using "1.prems"(3) by (simp add: unfold)
        have wclock: "whole (clock + run)" using "1.prems"(1) wr by (rule whole_add)
        have wpool: "\<forall>x\<in>set pool'. whole (snd x) \<and> whole (arrival_time (fst x))"
          using "1.prems"(2) set_remove1_subset [of cur pool] wc whole_diff [OF wc(1) wr]
          by (auto simp: pool'_def split: if_splits)
        show ?thesis
          using wclock wpool seg
          unfolding pool'_def by (intro "1.IH"(2) [OF ne False cur_def later_def run_def])
      qed
    qed
  qed
qed

lemma coalesce_whole:
  "\<forall>seg\<in>set segs. whole (snd (snd seg)) \<Longrightarrow> seg \<in> set (coalesce segs) \<Longrightarrow> whole (snd (snd seg))"
proof (induction segs arbitrary: seg rule: coalesce.induct)
  case (1 p s a p' s' a' rest)
  show ?case
  proof (cases "process_id p = process_id p' \<and> s + a = s'")
    case True
    then have "seg \<in> set (coalesce ((p, s, a + a') # rest))" using "1.prems"(2) by simp
    moreover have "\<forall>seg\<in>set ((p, s, a + a') # rest). whole (snd (snd seg))"
      using "1.prems"(1) by (auto intro: whole_add)
    ultimately show ?thesis using "1.IH"(1) [OF True] by blast
  next
    case False
    then have "seg = (p, s, a) \<or> seg \<in> set (coalesce ((p', s', a') # rest))"
      using "1.prems"(2) by auto
    then show ?thesis
    proof
      assume "seg = (p, s, a)"
      then show ?thesis using "1.prems"(1) by simp
    next
      assume "seg \<in> set (coalesce ((p', s', a') # rest))"
      moreover have "\<forall>seg\<in>set ((p', s', a') # rest). whole (snd (snd seg))"
        using "1.prems"(1) by simp
      ultimately show ?thesis using "1.IH"(2) [OF False] by blast
    qed
  qed
qed simp_all

lemma run_segments_whole:
  assumes "\<forall>p\<in>set ps. whole (arrival_time p) \<and> whole (burst_time p)"
    and "seg \<in> set (run_segments key ps)"
  shows "whole (snd (snd seg))"
proof -
  have zero: "whole 0" by (simp add: whole_def)
  have pool: "\<forall>x\<in>set (map (\<lambda>p. (p, burst_time p)) ps). whole (snd x) \<and> whole (arrival_time (fst x))"
    using assms(1) by auto
  have "\<forall>seg\<in>set (preempt_loop key 0 (map (\<lambda>p. (p, burst_time p)) ps)). whole (snd (snd seg))"
    using preempt_whole [OF zero pool] by blast
  then show ?thesis
    using assms(2) unfolding run_segments_def by (rule coalesce_whole)
qed

lemma spec_sequence_whole:
  assumes "\<forall>p\<in>set ps. whole (arrival_time p) \<and> whole (burst_time p)"
    and "\<forall>quant. c = CallRR quant \<longrightarrow> whole quant"
    and "e \<in> set (spec_sequence c ps)"
  shows "whole (burst_time e)"
proof (cases c)
  case CallFCFS
  then show ?thesis using assms(1,3) by (auto simp: FCFS_spec_def)
next
  case CallSJF
  have "set (SJF_spec ps) = set ps"
    unfolding SJF_spec_def by (rule mset_eq_setD) (rule mset_select_loop)
  then show ?thesis using CallSJF assms(1,3) by simp
next
  case (CallRR quant)
  then have e: "e \<in> set (rr_loop quant 0 [] (sort_key (\<lambda>p. (arrival_time p, process_id p)) ps))"
    using assms(3) by (simp add: RR_spec_def)
  have f: "\<forall>f\<in>set (sort_key (\<lambda>p. (arrival_time p, process_id p)) ps). whole (burst_time f)"
    using assms(1) by simp
  have "whole quant" using assms(2) CallRR by simp
  from rr_loop_whole [OF this _ f e] show ?thesis by simp
next
  case CallSRTF
  then have "e \<in> entry_of ` set (run_segments (\<lambda>(p, r). (r, arrival_time p, process_id p)) ps)"
    using assms(3) by (simp add: SRTF_spec_def)
  then obtain seg where seg: "seg \<in> set (run_segments (\<lambda>(p, r). (r, arrival_time p, process_id p)) ps)"
      and e: "e = entry_of seg"
    by blast
  obtain p s a where "seg = (p, s, a)" by (cases seg)
  then show ?thesis using run_segments_whole [OF assms(1) seg] e by simp
next
  case CallNPPS
  have "set (NPPS_spec ps) = set ps"
    unfolding NPPS_spec_def by (rule mset_eq_setD) (rule mset_select_loop)
  then show ?thesis using CallNPPS assms(1,3) by simp
next
  case CallPPS
  then have "e \<in> slice_of ` set (run_segments (\<lambda>(p, r). (priority p, arrival_time p, process_id p)) ps)"
    using assms(3) by (simp add: PPS_spec_def)
  then obtain seg where seg: "seg \<in> set (run_segments (\<lambda>(p, r). (priority p, arrival_time p, process_id p)) ps)"
      and e: "e = slice_of seg"
    by blast
  obtain p s a where "seg = (p, s, a)" by (cases seg)
  then show ?thesis using run_segments_whole [OF assms(1) seg] e by simp
qed

subsection \<open>The total time run\<close>

lemma sum_one_process:
  "distinct (map process_id ps) \<Longrightarrow> k \<in> process_id ` set ps \<Longrightarrow>
     sum_list (map (\<lambda>p. if k = process_id p then b else 0) ps) = (b::number)"
proof (induction ps)
  case Nil
  then show ?case by simp
next
  case (Cons p ps)
  have absent: "k \<notin> process_id ` set qs \<Longrightarrow>
      sum_list (map (\<lambda>p. if k = process_id p then b else 0) qs) = 0" for qs
    by (induction qs) auto
  show ?case
  proof (cases "k = process_id p")
    case True
    then have "k \<notin> process_id ` set ps" using Cons.prems(1) by auto
    then show ?thesis using True absent by simp
  next
    case False
    then show ?thesis using Cons by auto
  qed
qed

lemma total_by_process:
  assumes "distinct (map process_id ps)"
    and "\<forall>e\<in>set raw. process_id e \<in> process_id ` set ps"
  shows "sum_list (map burst_time raw) = sum_list (map (\<lambda>p. work (process_id p) raw) ps)"
  using assms(2)
proof (induction raw)
  case Nil
  then show ?case by simp
next
  case (Cons e raw)
  have "sum_list (map (\<lambda>p. work (process_id p) (e # raw)) ps)
          = sum_list (map (\<lambda>p. if process_id e = process_id p then burst_time e else 0) ps)
            + sum_list (map (\<lambda>p. work (process_id p) raw) ps)"
    by (simp add: sum_list_addf)
  also have "\<dots> = burst_time e + sum_list (map burst_time raw)"
    using Cons sum_one_process [OF assms(1), of "process_id e" "burst_time e"] by simp
  finally show ?case by simp
qed

lemma decision_total:
  assumes "valid_processes ps" and "decision_for ps raw"
  shows "sum_list (map burst_time raw) = sum_list (map burst_time ps)"
proof -
  have d: "distinct (map process_id ps)" using assms(1) by (simp add: valid_processes_def)
  have ids: "\<forall>e\<in>set raw. process_id e \<in> process_id ` set ps"
  proof
    fix e assume "e \<in> set raw"
    then obtain p where "p \<in> set ps" "process_id p = process_id e"
      using assms(2) by (auto simp: decision_for_def list_all_iff list_ex_iff)
    then show "process_id e \<in> process_id ` set ps" by (metis imageI)
  qed
  have m: "map (\<lambda>p. work (process_id p) raw) ps = map burst_time ps"
    using assms(2) by (simp add: decision_for_def list_all_iff)
  show ?thesis using total_by_process [OF d ids] by (simp only: m)
qed

subsection \<open>Within the safe range the assembly pass is exact\<close>

lemma stitched_exact:
  assumes "whole c" and "0 \<le> c"
    and "list_all (\<lambda>e. whole (arrival_time e) \<and> whole (burst_time e) \<and> 0 \<le> burst_time e) raw"
    and "c + sum_list (map burst_time raw) \<le> MAX_SAFE_INTEGER"
    and "\<forall>e\<in>set raw. arrival_time e + sum_list (map burst_time raw) \<le> MAX_SAFE_INTEGER"
  shows "stitched c raw = stitched_exactly c raw"
  using assms
proof (induction raw arbitrary: c)
  case Nil
  then show ?case by simp
next
  case (Cons e raw)
  let ?start = "max c (arrival_time e)"
  let ?total = "sum_list (map burst_time raw)"
  have we: "whole (arrival_time e)" "whole (burst_time e)" and be: "0 \<le> burst_time e"
    and rest: "list_all (\<lambda>e. whole (arrival_time e) \<and> whole (burst_time e) \<and> 0 \<le> burst_time e) raw"
    using Cons.prems(3) by simp_all
  have nn: "0 \<le> ?total" using rest by (auto intro!: sum_list_nonneg simp: list_all_iff)
  have ws: "whole ?start" using Cons.prems(1) we(1) by (rule whole_max)
  have s0: "0 \<le> ?start" using Cons.prems(2) by simp
  have sb: "?start + burst_time e + ?total \<le> MAX_SAFE_INTEGER"
    using Cons.prems(4,5) by (auto simp: max_def)
  have "\<bar>?start + burst_time e\<bar> < 9007199254740992"
    using s0 be nn sb by (simp add: MAX_SAFE_INTEGER_def)
  then have ex: "js_add ?start (burst_time e) = ?start + burst_time e"
    using ws we(2) by (intro js_add_exact)
  have "stitched (?start + burst_time e) raw = stitched_exactly (?start + burst_time e) raw"
  proof (rule Cons.IH)
    show "whole (?start + burst_time e)" using ws we(2) by (rule whole_add)
    show "0 \<le> ?start + burst_time e" using s0 be by simp
    show "list_all (\<lambda>e. whole (arrival_time e) \<and> whole (burst_time e) \<and> 0 \<le> burst_time e) raw"
      by (rule rest)
    show "?start + burst_time e + ?total \<le> MAX_SAFE_INTEGER" by (rule sb)
    show "\<forall>e'\<in>set raw. arrival_time e' + ?total \<le> MAX_SAFE_INTEGER"
      using Cons.prems(5) be by auto
  qed
  then show ?case by (simp add: Let_def ex)
qed

lemma spec_sequence_decision:
  assumes "valid_processes ps" and "\<forall>quant. c = CallRR quant \<longrightarrow> 0 < quant" and "c \<noteq> CallPPS"
  shows "decision_for ps (spec_sequence c ps)"
  using assms
  by (cases c) (simp_all add: FCFS_decision SJF_decision RR_decision SRTF_decision NPPS_decision)

lemma spec_timeline_exact:
  assumes "valid_processes ps" and "safe_times ps"
    and "\<forall>quant. c = CallRR quant \<longrightarrow> 0 < quant \<and> whole quant"
    and "c \<noteq> CallPPS"
  shows "spec_timeline c ps = stitched_exactly 0 (spec_sequence c ps)"
proof -
  let ?raw = "spec_sequence c ps"
  let ?total = "sum_list (map burst_time ps)"
  have dec: "decision_for ps ?raw"
    using assms(1,3,4) by (intro spec_sequence_decision) simp_all
  have wq: "\<forall>quant. c = CallRR quant \<longrightarrow> whole quant" using assms(3) by simp
  have total: "sum_list (map burst_time ?raw) = ?total"
    using assms(1) dec by (rule decision_total)
  have wp: "\<forall>p\<in>set ps. whole (arrival_time p) \<and> whole (burst_time p)"
    and bound: "\<forall>p\<in>set ps. arrival_time p + ?total \<le> MAX_SAFE_INTEGER"
    using assms(2) by (simp_all add: safe_times_def list_all_iff)
  have entries: "\<forall>e\<in>set ?raw. 0 \<le> burst_time e
      \<and> (\<exists>p\<in>set ps. process_id p = process_id e \<and> arrival_time p = arrival_time e)"
    using dec by (simp add: decision_for_def list_all_iff list_ex_iff)
  have wb: "\<forall>e\<in>set ?raw. whole (burst_time e)"
    using spec_sequence_whole [OF wp wq] by blast
  have wa: "\<forall>e\<in>set ?raw. whole (arrival_time e) \<and> arrival_time e + ?total \<le> MAX_SAFE_INTEGER"
    using entries wp bound by metis
  obtain p where p: "p \<in> set ps" "0 \<le> arrival_time p"
    using assms(1) by (cases ps) (auto simp: valid_processes_def)
  then have "?total \<le> MAX_SAFE_INTEGER" using bound by force
  then have "stitched 0 ?raw = stitched_exactly 0 ?raw"
    using entries wb wa total
    by (intro stitched_exact) (simp_all add: whole_def list_all_iff)
  then show ?thesis using assms(4) by (simp add: spec_timeline_def)
qed

lemma spec_timeline_schedule:
  assumes "valid_processes ps" and "safe_times ps"
    and "\<forall>quant. c = CallRR quant \<longrightarrow> 0 < quant \<and> whole quant"
  shows "schedule_for ps (spec_timeline c ps)"
proof (cases "c = CallPPS")
  case True
  then show ?thesis using assms(1) by (simp add: spec_timeline_def PPS_schedule)
next
  case False
  have "decision_for ps (spec_sequence c ps)"
    using assms(1,3) False by (intro spec_sequence_decision) simp_all
  then have "schedule_for ps (stitched_exactly 0 (spec_sequence c ps))"
    by (rule decision_schedule)
  then show ?thesis
    using spec_timeline_exact [OF assms False] by simp
qed

lemma valid_run_call:
  assumes "valid_run st values"
  shows "\<exists>c. dispatch values = Some c \<and> (\<forall>quant. c = CallRR quant \<longrightarrow> 0 < quant \<and> whole quant)"
  using assms by (auto simp: valid_run_def split: option.splits Call.splits)

lemma valid_run_processes:
  assumes "valid_run st values"
  shows "valid_processes (records (objects st) (processes st))"
    and "safe_times (records (objects st) (processes st))"
    and "processes st \<noteq> []"
  using assms by (auto simp: valid_run_def valid_processes_def records_def)

lemma valid_run_schedule:
  assumes "valid_run st values"
  shows "schedule_for (records (objects st) (processes st))
           (records (objects (onSubmit spec_strategies st values))
              (timeline (onSubmit spec_strategies st values)))"
proof -
  obtain c where c: "dispatch values = Some c"
    and rr: "\<forall>quant. c = CallRR quant \<longrightarrow> 0 < quant \<and> whole quant"
    using valid_run_call [OF assms] by blast
  note vp = valid_run_processes [OF assms]
  show ?thesis
    using spec_timeline_schedule [OF vp(1,2) rr] by (simp add: spec_submit_timeline [OF vp(3) c])
qed

lemma separated_from_sorted: "separated_from t xs \<Longrightarrow> sorted (map arrival_time xs)"
proof (induction xs arbitrary: t)
  case Nil
  then show ?case by simp
next
  case (Cons x xs)
  then have sep: "separated_from (arrival_time x + burst_time x) xs" and nn: "0 \<le> burst_time x"
    by simp_all
  have "\<forall>e\<in>set xs. arrival_time x \<le> arrival_time e"
    using separated_from_starts [OF sep] nn by force
  then show ?case using Cons.IH [OF sep] by simp
qed



text \<open>
  The scenarios of section 8 of the specification. Scenario 2: shortest job first
  runs P1, then P3, then P2. Scenario 3: round robin with quantum 2 on two processes
  that arrive at 0 with bursts 5 and 3. Scenario 1 under first-come-first-served:
  the timeline is P1 0-5, P2 5-8, P3 8-9.
\<close>

lemma scenario2_order: "SJF_spec [P1, P2, P3] = [P1, P3, P2]"
  by (simp add: SJF_spec_def select_loop.simps P1_def P2_def P3_def)

lemma scenario3_sequence:
  "RR_spec [P1, P2\<lparr>arrival_time := 0\<rparr>] 2
     = [P1\<lparr>burst_time := 2\<rparr>, P2\<lparr>arrival_time := 0, burst_time := 2\<rparr>,
        P1\<lparr>burst_time := 2\<rparr>, P2\<lparr>arrival_time := 0, burst_time := 1\<rparr>,
        P1\<lparr>burst_time := 1\<rparr>]"
  by (simp add: RR_spec_def rr_loop.simps P1_def P2_def)

lemma scenario1_metrics:
  "shown_metrics (onSubmit spec_strategies scenario1 \<lparr>algorithm = ''fCFS'', quantum = None\<rparr>)
     = Some \<lparr>per_process = [\<lparr>pid = 1, waiting_time = 0, turnaround_time = 5\<rparr>,
                             \<lparr>pid = 2, waiting_time = 4, turnaround_time = 7\<rparr>,
                             \<lparr>pid = 3, waiting_time = 6, turnaround_time = 7\<rparr>],
             total_waiting = 10, total_turnaround = 19, total_time = 9, busy_time = 9,
             cpu_utilization = 1\<rparr>"
proof -
  have ne: "processes scenario1 \<noteq> []" by (simp add: scenario1_def)
  have d: "dispatch \<lparr>algorithm = ''fCFS'', quantum = None\<rparr> = Some CallFCFS"
    by (simp add: dispatch_def)
  have refs: "list_all (\<lambda>r. r < length (objects scenario1)) (processes scenario1)"
    by (simp add: scenario1_def)
  show ?thesis
    unfolding shown_metrics_def spec_submit_timeline [OF ne d] spec_submit_processes [OF refs]
    by (simp add: spec_timeline_def FCFS_spec_def scenario1_def records_def metrics_def
          process_metrics_def completion_time_def makespan_def P1_def P2_def P3_def
          js_add_exact whole_def)
qed


subsection \<open>The start rule\<close>

lemma stitched_exactly_rule:
  assumes "list_all (\<lambda>e. 0 \<le> burst_time e
              \<and> list_ex (\<lambda>p. process_id p = process_id e \<and> arrival_time p = arrival_time e) ps) raw"
  shows "starts_by_rule ps c (stitched_exactly c raw)"
  using assms
proof (induction raw arbitrary: c)
  case Nil
  then show ?case by simp
next
  case (Cons e raw)
  then obtain p where "p \<in> set ps" "process_id p = process_id e" "arrival_time p = arrival_time e"
    by (auto simp: list_ex_iff)
  then have "list_ex (\<lambda>p. process_id p = process_id e
                          \<and> max c (arrival_time e) = max c (arrival_time p)) ps"
    by (auto simp: list_ex_iff)
  then show ?case using Cons by (simp add: Let_def)
qed

lemma segments_rule_earlier:
  assumes "segments_by_rule t segs" and "clock \<le> t"
    and "\<forall>seg\<in>set segs. t \<le> arrival_time (fst seg)"
  shows "segments_by_rule clock segs"
proof (cases segs)
  case Nil
  then show ?thesis by simp
next
  case (Cons seg rest)
  obtain p s a where seg: "seg = (p, s, a)" by (cases seg)
  have "t \<le> arrival_time p" using assms(3) Cons seg by simp
  then have eq: "max t (arrival_time p) = max clock (arrival_time p)" using assms(2) by simp
  have rule: "s = max t (arrival_time p)" "0 \<le> a" "segments_by_rule (s + a) rest"
    using assms(1) unfolding Cons seg segments_by_rule.simps by blast+
  have "s = max clock (arrival_time p)" using rule(1) eq by (rule trans)
  then show ?thesis
    unfolding Cons seg segments_by_rule.simps using rule(2,3) by blast
qed

lemma preempt_rule:
  "\<forall>x\<in>set pool. 0 \<le> snd x \<Longrightarrow> segments_by_rule clock (preempt_loop key clock pool)"
proof (induction key clock pool rule: preempt_loop.induct)
  case (1 key clock pool)
  show ?case
  proof (cases "pool = []")
    case True
    then show ?thesis by (simp add: preempt_loop_Nil)
  next
    case ne: False
    show ?thesis
    proof (cases "filter (\<lambda>x. arrival_time (fst x) \<le> clock) pool = []")
      case True
      let ?t = "min_list (map (\<lambda>x. arrival_time (fst x)) pool)"
      have t: "?t = Min (set (map (\<lambda>x. arrival_time (fst x)) pool))"
        using ne by (simp add: min_list_Min)
      then have "?t \<in> set (map (\<lambda>x. arrival_time (fst x)) pool)"
        using ne Min_in [of "set (map (\<lambda>x. arrival_time (fst x)) pool)"] by simp
      then obtain x where "x \<in> set pool" "arrival_time (fst x) = ?t" by auto
      then have le: "clock \<le> ?t" using True by (force simp: filter_empty_conv)
      have least: "\<forall>x\<in>set pool. ?t \<le> arrival_time (fst x)"
        unfolding t by (auto intro!: Min_le)
      have after: "\<forall>seg\<in>set (preempt_loop key ?t pool). ?t \<le> arrival_time (fst seg)"
      proof
        fix seg
        assume "seg \<in> set (preempt_loop key ?t pool)"
        then have "fst seg \<in> fst ` set pool" using preempt_members by blast
        then obtain x where "x \<in> set pool" "fst seg = fst x" by auto
        then show "?t \<le> arrival_time (fst seg)" using least by simp
      qed
      have "segments_by_rule ?t (preempt_loop key ?t pool)"
        using ne True "1.prems" by (rule "1.IH"(1))
      then have "segments_by_rule clock (preempt_loop key ?t pool)"
        using le after by (rule segments_rule_earlier)
      then show ?thesis using ne True by (simp add: preempt_loop_idle)
    next
      case False
      define cur where "cur = arg_min_list key (filter (\<lambda>x. arrival_time (fst x) \<le> clock) pool)"
      define later where "later = filter (\<lambda>t. clock < t) (map (\<lambda>x. arrival_time (fst x)) pool)"
      define run where "run = (if later = [] then snd cur else min (snd cur) (min_list later - clock))"
      define pool' where "pool' = (if snd cur - run > 0 then (fst cur, snd cur - run) # remove1 cur pool
                                   else remove1 cur pool)"
      have "cur \<in> set (filter (\<lambda>x. arrival_time (fst x) \<le> clock) pool)"
        unfolding cur_def using False by (rule arg_min_list_in)
      then have mem: "cur \<in> set pool" and arrived: "arrival_time (fst cur) \<le> clock" by simp_all
      then have "0 \<le> snd cur" using "1.prems" by simp
      from preempt_run_bounds [OF later_def run_def this]
      have run: "0 \<le> run" by simp
      have unfold: "preempt_loop key clock pool = (fst cur, clock, run) # preempt_loop key (clock + run) pool'"
        unfolding pool'_def by (rule preempt_loop_run [OF ne False cur_def later_def run_def])
      have "\<forall>x\<in>set pool'. 0 \<le> snd x"
        using "1.prems" set_remove1_subset [of cur pool]
        by (auto simp: pool'_def split: if_splits)
      then have "segments_by_rule (clock + run) (preempt_loop key (clock + run) pool')"
        unfolding pool'_def by (intro "1.IH"(2) [OF ne False cur_def later_def run_def])
      then show ?thesis
        using run arrived by (simp add: unfold)
    qed
  qed
qed

lemma coalesce_rule:
  "segments_by_rule t segs \<Longrightarrow> segments_by_rule t (coalesce segs)"
proof (induction segs arbitrary: t rule: coalesce.induct)
  case (1 p s a p' s' a' rest)
  show ?case
  proof (cases "process_id p = process_id p' \<and> s + a = s'")
    case True
    from True have s': "s' = s + a" by simp
    have rule: "s = max t (arrival_time p)" "0 \<le> a" "0 \<le> a'" "segments_by_rule (s' + a') rest"
      using "1.prems" unfolding segments_by_rule.simps by blast+
    have "segments_by_rule (s + (a + a')) rest"
      using rule(4) unfolding s' by (simp only: add.assoc)
    moreover have "0 \<le> a + a'" using rule(2,3) by simp
    ultimately have "segments_by_rule t ((p, s, a + a') # rest)"
      unfolding segments_by_rule.simps using rule(1) by blast
    then have "segments_by_rule t (coalesce ((p, s, a + a') # rest))"
      using True by (rule "1.IH"(1) [rotated])
    moreover have "coalesce ((p, s, a) # (p', s', a') # rest) = coalesce ((p, s, a + a') # rest)"
      using True by simp
    ultimately show ?thesis by simp
  next
    case False
    have rule: "s = max t (arrival_time p)" "0 \<le> a"
      "segments_by_rule (s + a) ((p', s', a') # rest)"
      using "1.prems" unfolding segments_by_rule.simps(2) [of t p s a] by blast+
    have "segments_by_rule (s + a) (coalesce ((p', s', a') # rest))"
      using rule(3) False by (rule "1.IH"(2) [rotated])
    moreover have "coalesce ((p, s, a) # (p', s', a') # rest)
                     = (p, s, a) # coalesce ((p', s', a') # rest)"
      using False by auto
    ultimately show ?thesis
      unfolding segments_by_rule.simps using rule(1,2) by simp
  qed
qed simp_all

lemma segments_rule_slices:
  "segments_by_rule t segs \<Longrightarrow> \<forall>seg\<in>set segs. fst seg \<in> set ps \<Longrightarrow>
     starts_by_rule ps t (map slice_of segs)"
proof (induction segs arbitrary: t)
  case Nil
  then show ?case by simp
next
  case (Cons seg segs)
  obtain p s a where seg: "seg = (p, s, a)" by (cases seg)
  have rule: "s = max t (arrival_time p)" "0 \<le> a" "segments_by_rule (s + a) segs"
    using Cons.prems(1) unfolding seg segments_by_rule.simps by blast+
  have "p \<in> set ps" using Cons.prems(2) seg by simp
  then have "list_ex (\<lambda>q. process_id q = process_id p \<and> s = max t (arrival_time q)) ps"
    using rule(1) by (auto simp: list_ex_iff)
  moreover have "starts_by_rule ps (s + a) (map slice_of segs)"
    using rule(3) Cons.prems(2) by (intro Cons.IH) simp_all
  ultimately show ?case
    unfolding seg using rule(2) by simp
qed

lemma PPS_rule:
  assumes "valid_processes ps"
  shows "starts_by_rule ps 0 (PPS_spec ps)"
proof -
  let ?key = "\<lambda>(p, r). (priority p, arrival_time p, process_id p)"
  have "\<forall>x\<in>set (map (\<lambda>p. (p, burst_time p)) ps). 0 \<le> snd x"
    using assms by (auto simp: valid_processes_def list_all_iff intro: less_imp_le)
  then have "segments_by_rule 0 (run_segments ?key ps)"
    unfolding run_segments_def by (intro coalesce_rule preempt_rule)
  moreover have "\<forall>seg\<in>set (run_segments ?key ps). fst seg \<in> set ps"
    using run_segments_members by blast
  ultimately show ?thesis
    unfolding PPS_spec_def by (rule segments_rule_slices)
qed

lemma spec_timeline_rule:
  assumes "valid_processes ps" and "safe_times ps"
    and "\<forall>quant. c = CallRR quant \<longrightarrow> 0 < quant \<and> whole quant"
  shows "starts_by_rule ps 0 (spec_timeline c ps)"
proof (cases "c = CallPPS")
  case True
  then show ?thesis using assms(1) by (simp add: spec_timeline_def PPS_rule)
next
  case False
  have "decision_for ps (spec_sequence c ps)"
    using assms(1,3) False by (intro spec_sequence_decision) simp_all
  then have "starts_by_rule ps 0 (stitched_exactly 0 (spec_sequence c ps))"
    by (intro stitched_exactly_rule) (simp add: decision_for_def list_all_iff)
  then show ?thesis
    using spec_timeline_exact [OF assms False] by simp
qed

lemma valid_run_rule:
  assumes "valid_run st values"
  shows "starts_by_rule (records (objects st) (processes st)) 0
           (records (objects (onSubmit spec_strategies st values))
              (timeline (onSubmit spec_strategies st values)))"
proof -
  obtain c where c: "dispatch values = Some c"
    and rr: "\<forall>quant. c = CallRR quant \<longrightarrow> 0 < quant \<and> whole quant"
    using valid_run_call [OF assms] by blast
  note vp = valid_run_processes [OF assms]
  show ?thesis
    using spec_timeline_rule [OF vp(1,2) rr] by (simp add: spec_submit_timeline [OF vp(3) c])
qed

section \<open>Well-formedness of the timeline\<close>

text \<open>
  With first-come-first-served on a process that arrives at 5 after the first one
  ended at 2, the timeline holds the two process slices, starting at 0 and at 5: no
  idle slice stands between them, and the timeline is not contiguous. With a burst
  time of 2 to the 53 followed by two bursts of 1, the clock after the second slice
  is rounded back to 2 to the 53: the slices start at 0, at 2 to the 53 and again at
  2 to the 53, so the last two overlap. With a burst time of 2 to the 52 minus one
  half followed by two bursts of 1, all below 2 to the 53, the clock after the second
  slice, 2 to the 52 plus one half, is a tie and is rounded to 2 to the 52: the third
  slice starts one half before the second has ended.
\<close>

theorem timeline_gap_counterexample:
  "records (objects (onSubmit spec_strategies late_arrival \<lparr>algorithm = ''fCFS'', quantum = None\<rparr>))
     (timeline (onSubmit spec_strategies late_arrival \<lparr>algorithm = ''fCFS'', quantum = None\<rparr>))
     = [G1, G2]
   \<and> \<not> contiguous_from 0
        (records (objects (onSubmit spec_strategies late_arrival \<lparr>algorithm = ''fCFS'', quantum = None\<rparr>))
           (timeline (onSubmit spec_strategies late_arrival \<lparr>algorithm = ''fCFS'', quantum = None\<rparr>)))
   \<and> valid_processes (records (objects long_burst) (processes long_burst))
   \<and> records (objects (onSubmit spec_strategies long_burst \<lparr>algorithm = ''fCFS'', quantum = None\<rparr>))
        (timeline (onSubmit spec_strategies long_burst \<lparr>algorithm = ''fCFS'', quantum = None\<rparr>))
     = [H1, H2\<lparr>arrival_time := 9007199254740992\<rparr>, H3\<lparr>arrival_time := 9007199254740992\<rparr>]
   \<and> \<not> separated_from 0
        (records (objects (onSubmit spec_strategies long_burst \<lparr>algorithm = ''fCFS'', quantum = None\<rparr>))
           (timeline (onSubmit spec_strategies long_burst \<lparr>algorithm = ''fCFS'', quantum = None\<rparr>)))
   \<and> valid_processes (records (objects half_burst) (processes half_burst))
   \<and> records (objects (onSubmit spec_strategies half_burst \<lparr>algorithm = ''fCFS'', quantum = None\<rparr>))
        (timeline (onSubmit spec_strategies half_burst \<lparr>algorithm = ''fCFS'', quantum = None\<rparr>))
     = [F1, F2\<lparr>arrival_time := 9007199254740991 / 2\<rparr>, F3\<lparr>arrival_time := 4503599627370496\<rparr>]
   \<and> \<not> separated_from 0
        (records (objects (onSubmit spec_strategies half_burst \<lparr>algorithm = ''fCFS'', quantum = None\<rparr>))
           (timeline (onSubmit spec_strategies half_burst \<lparr>algorithm = ''fCFS'', quantum = None\<rparr>)))"
proof -
  have d: "dispatch \<lparr>algorithm = ''fCFS'', quantum = None\<rparr> = Some CallFCFS"
    by (simp add: dispatch_def)
  have ne: "processes late_arrival \<noteq> []" by (simp add: late_arrival_def)
  have gap: "records (objects (onSubmit spec_strategies late_arrival \<lparr>algorithm = ''fCFS'', quantum = None\<rparr>))
     (timeline (onSubmit spec_strategies late_arrival \<lparr>algorithm = ''fCFS'', quantum = None\<rparr>))
     = [G1, G2]"
    unfolding spec_submit_timeline [OF ne d]
    by (simp add: spec_timeline_def FCFS_spec_def late_arrival_def records_def G1_def G2_def
          js_add_exact whole_def)
  have not_contiguous: "\<not> contiguous_from 0 [G1, G2]"
    by (simp add: G1_def G2_def)
  have ne': "processes long_burst \<noteq> []" by (simp add: long_burst_def)
  have valid: "valid_processes (records (objects long_burst) (processes long_burst))"
    by (simp add: valid_processes_def long_burst_def records_def H1_def H2_def H3_def)
  have long: "records (objects (onSubmit spec_strategies long_burst \<lparr>algorithm = ''fCFS'', quantum = None\<rparr>))
        (timeline (onSubmit spec_strategies long_burst \<lparr>algorithm = ''fCFS'', quantum = None\<rparr>))
     = [H1, H2\<lparr>arrival_time := 9007199254740992\<rparr>, H3\<lparr>arrival_time := 9007199254740992\<rparr>]"
    unfolding spec_submit_timeline [OF ne' d]
    by (simp add: spec_timeline_def FCFS_spec_def long_burst_def records_def H1_def H2_def H3_def
          js_add_rounds js_add_power)
  have overlap: "\<not> separated_from 0
      [H1, H2\<lparr>arrival_time := 9007199254740992\<rparr>, H3\<lparr>arrival_time := 9007199254740992\<rparr>]"
    by (simp add: H1_def H2_def H3_def)
  have ne'': "processes half_burst \<noteq> []" by (simp add: half_burst_def)
  have valid': "valid_processes (records (objects half_burst) (processes half_burst))"
    by (simp add: valid_processes_def half_burst_def records_def F1_def F2_def F3_def)
  have half: "records (objects (onSubmit spec_strategies half_burst \<lparr>algorithm = ''fCFS'', quantum = None\<rparr>))
        (timeline (onSubmit spec_strategies half_burst \<lparr>algorithm = ''fCFS'', quantum = None\<rparr>))
     = [F1, F2\<lparr>arrival_time := 9007199254740991 / 2\<rparr>, F3\<lparr>arrival_time := 4503599627370496\<rparr>]"
    unfolding spec_submit_timeline [OF ne'' d]
    by (simp add: spec_timeline_def FCFS_spec_def half_burst_def records_def F1_def F2_def F3_def
          js_add_half js_add_tie)
  have overlap': "\<not> separated_from 0
      [F1, F2\<lparr>arrival_time := 9007199254740991 / 2\<rparr>, F3\<lparr>arrival_time := 4503599627370496\<rparr>]"
    by (simp add: F1_def F2_def F3_def)
  show ?thesis
    unfolding gap long half using not_contiguous valid overlap valid' overlap' by simp
qed

text \<open>
  C1, as the code has it. For every valid run, with each of the six strategies,
  whose times are within the safe range (whole numbers, every arrival time plus the
  total burst time at most 2 to the 53 minus 1, a whole quantum for round robin),
  the slices of the assembled timeline follow the start rule from time 0: every
  slice belongs to a process of the list and starts where the previous slice ended,
  or when its process arrives if that is later. So consecutive slices are contiguous
  whenever the process of the later one has arrived by then, a gap and no idle slice
  stands where it has not, the slices are ordered by start time and do not overlap,
  and none starts before its process arrives.
\<close>

theorem timeline_separated:
  assumes "valid_run st values"
  shows "starts_by_rule (records (objects st) (processes st)) 0
           (records (objects (onSubmit spec_strategies st values))
              (timeline (onSubmit spec_strategies st values)))
       \<and> separated_from 0
           (records (objects (onSubmit spec_strategies st values))
              (timeline (onSubmit spec_strategies st values)))
       \<and> sorted (map arrival_time
           (records (objects (onSubmit spec_strategies st values))
              (timeline (onSubmit spec_strategies st values))))
       \<and> list_all (\<lambda>e. list_ex (\<lambda>p. process_id p = process_id e \<and> arrival_time p \<le> arrival_time e)
                          (records (objects st) (processes st)))
           (records (objects (onSubmit spec_strategies st values))
              (timeline (onSubmit spec_strategies st values)))"
proof -
  let ?T = "records (objects (onSubmit spec_strategies st values))
              (timeline (onSubmit spec_strategies st values))"
  from valid_run_schedule [OF assms]
  have s: "separated_from 0 ?T"
    and l: "list_all (\<lambda>e. list_ex (\<lambda>p. process_id p = process_id e \<and> arrival_time p \<le> arrival_time e)
                          (records (objects st) (processes st))) ?T"
    by (simp_all add: schedule_for_def)
  from s have "sorted (map arrival_time ?T)" by (rule separated_from_sorted)
  then show ?thesis using s l valid_run_rule [OF assms] by simp
qed

theorem timeline_separated_witness:
  "valid_run late_arrival \<lparr>algorithm = ''fCFS'', quantum = None\<rparr>
   \<and> starts_by_rule (records (objects late_arrival) (processes late_arrival)) 0
        (records (objects (onSubmit spec_strategies late_arrival \<lparr>algorithm = ''fCFS'', quantum = None\<rparr>))
           (timeline (onSubmit spec_strategies late_arrival \<lparr>algorithm = ''fCFS'', quantum = None\<rparr>)))
   \<and> separated_from 0
        (records (objects (onSubmit spec_strategies late_arrival \<lparr>algorithm = ''fCFS'', quantum = None\<rparr>))
           (timeline (onSubmit spec_strategies late_arrival \<lparr>algorithm = ''fCFS'', quantum = None\<rparr>)))
   \<and> sorted (map arrival_time
        (records (objects (onSubmit spec_strategies late_arrival \<lparr>algorithm = ''fCFS'', quantum = None\<rparr>))
           (timeline (onSubmit spec_strategies late_arrival \<lparr>algorithm = ''fCFS'', quantum = None\<rparr>))))"
proof -
  have v: "valid_run late_arrival \<lparr>algorithm = ''fCFS'', quantum = None\<rparr>"
    by (simp add: valid_run_def valid_processes_def safe_times_def whole_def MAX_SAFE_INTEGER_def
          dispatch_def late_arrival_def records_def G1_def G2_def)
  show ?thesis
    using timeline_separated [OF v] v by blast
qed

section \<open>Waiting and turnaround times\<close>

text \<open>
  One process that arrives at 2 to the 53 with a burst time of 2, under round robin
  with quantum 1: a valid input. The decision sequence has two entries of 1. The
  clock after the first slice, 2 to the 53 plus 1, is rounded to 2 to the 53, so both
  slices start at 2 to the 53; the last slice ends at 2 to the 53 plus 1, the
  turnaround time is 1, less than the burst time, and the waiting time is -1. With the
  arrival time 2 to the 52 minus one half instead, below 2 to the 53, the clock after
  the first slice is a tie and is rounded down by one half: the turnaround time is
  three halves and the waiting time is minus one half.
\<close>

theorem metrics_negative_counterexample:
  "valid_processes (records (objects late_start) (processes late_start))
   \<and> dispatch \<lparr>algorithm = ''RR'', quantum = Some 1\<rparr> = Some (CallRR 1)
   \<and> records (objects (onSubmit spec_strategies late_start \<lparr>algorithm = ''RR'', quantum = Some 1\<rparr>))
        (timeline (onSubmit spec_strategies late_start \<lparr>algorithm = ''RR'', quantum = Some 1\<rparr>))
     = [K1\<lparr>burst_time := 1\<rparr>, K1\<lparr>burst_time := 1\<rparr>]
   \<and> process_metrics
        (records (objects (onSubmit spec_strategies late_start \<lparr>algorithm = ''RR'', quantum = Some 1\<rparr>))
           (timeline (onSubmit spec_strategies late_start \<lparr>algorithm = ''RR'', quantum = Some 1\<rparr>)))
        K1
     = Some \<lparr>pid = 1, waiting_time = - 1, turnaround_time = 1\<rparr>
   \<and> valid_processes (records (objects half_start) (processes half_start))
   \<and> records (objects (onSubmit spec_strategies half_start \<lparr>algorithm = ''RR'', quantum = Some 1\<rparr>))
        (timeline (onSubmit spec_strategies half_start \<lparr>algorithm = ''RR'', quantum = Some 1\<rparr>))
     = [Q1\<lparr>burst_time := 1\<rparr>, Q1\<lparr>arrival_time := 4503599627370496, burst_time := 1\<rparr>]
   \<and> process_metrics
        (records (objects (onSubmit spec_strategies half_start \<lparr>algorithm = ''RR'', quantum = Some 1\<rparr>))
           (timeline (onSubmit spec_strategies half_start \<lparr>algorithm = ''RR'', quantum = Some 1\<rparr>)))
        Q1
     = Some \<lparr>pid = 1, waiting_time = - 1 / 2, turnaround_time = 3 / 2\<rparr>"
proof -
  have d: "dispatch \<lparr>algorithm = ''RR'', quantum = Some 1\<rparr> = Some (CallRR 1)"
    by (simp add: dispatch_def)
  have ne: "processes late_start \<noteq> []" by (simp add: late_start_def)
  have valid: "valid_processes (records (objects late_start) (processes late_start))"
    by (simp add: valid_processes_def late_start_def records_def K1_def)
  have run: "records (objects (onSubmit spec_strategies late_start \<lparr>algorithm = ''RR'', quantum = Some 1\<rparr>))
        (timeline (onSubmit spec_strategies late_start \<lparr>algorithm = ''RR'', quantum = Some 1\<rparr>))
     = [K1\<lparr>burst_time := 1\<rparr>, K1\<lparr>burst_time := 1\<rparr>]"
    unfolding spec_submit_timeline [OF ne d]
    by (simp add: spec_timeline_def RR_spec_def rr_loop.simps late_start_def records_def K1_def
          js_add_rounds)
  have "process_metrics [K1\<lparr>burst_time := 1\<rparr>, K1\<lparr>burst_time := 1\<rparr>] K1
          = Some \<lparr>pid = 1, waiting_time = - 1, turnaround_time = 1\<rparr>"
    by (simp add: process_metrics_def completion_time_def K1_def)
  then have first: "process_metrics
        (records (objects (onSubmit spec_strategies late_start \<lparr>algorithm = ''RR'', quantum = Some 1\<rparr>))
           (timeline (onSubmit spec_strategies late_start \<lparr>algorithm = ''RR'', quantum = Some 1\<rparr>)))
        K1
     = Some \<lparr>pid = 1, waiting_time = - 1, turnaround_time = 1\<rparr>"
    unfolding run .
  have ne': "processes half_start \<noteq> []" by (simp add: half_start_def)
  have valid': "valid_processes (records (objects half_start) (processes half_start))"
    by (simp add: valid_processes_def half_start_def records_def Q1_def)
  have run': "records (objects (onSubmit spec_strategies half_start \<lparr>algorithm = ''RR'', quantum = Some 1\<rparr>))
        (timeline (onSubmit spec_strategies half_start \<lparr>algorithm = ''RR'', quantum = Some 1\<rparr>))
     = [Q1\<lparr>burst_time := 1\<rparr>, Q1\<lparr>arrival_time := 4503599627370496, burst_time := 1\<rparr>]"
    unfolding spec_submit_timeline [OF ne' d]
    by (simp add: spec_timeline_def RR_spec_def rr_loop.simps half_start_def records_def Q1_def
          js_add_tie)
  have "process_metrics [Q1\<lparr>burst_time := 1\<rparr>, Q1\<lparr>arrival_time := 4503599627370496, burst_time := 1\<rparr>] Q1
          = Some \<lparr>pid = 1, waiting_time = - 1 / 2, turnaround_time = 3 / 2\<rparr>"
    by (simp add: process_metrics_def completion_time_def Q1_def)
  then have second: "process_metrics
        (records (objects (onSubmit spec_strategies half_start \<lparr>algorithm = ''RR'', quantum = Some 1\<rparr>))
           (timeline (onSubmit spec_strategies half_start \<lparr>algorithm = ''RR'', quantum = Some 1\<rparr>)))
        Q1
     = Some \<lparr>pid = 1, waiting_time = - 1 / 2, turnaround_time = 3 / 2\<rparr>"
    unfolding run' .
  show ?thesis
    using d valid run first valid' run' second by (intro conjI)
qed

text \<open>
  C9, as the code has it. For every valid run, with each of the six strategies, whose
  times are within the safe range (whole numbers, every arrival time plus the total
  burst time at most 2 to the 53 minus 1, a whole quantum for round robin), the
  metrics exist, and for every process the waiting time is at least 0 and the
  turnaround time is at least the burst time.
\<close>

theorem metrics_nonnegative:
  assumes "valid_run st values"
  shows "\<exists>M. shown_metrics (onSubmit spec_strategies st values) = Some M
           \<and> list_all2 (\<lambda>p m. pid m = process_id p \<and> 0 \<le> waiting_time m
                                \<and> burst_time p \<le> turnaround_time m)
               (records (objects st) (processes st)) (per_process M)"
proof -
  let ?st' = "onSubmit spec_strategies st values"
  let ?ps = "records (objects st) (processes st)"
  let ?T = "records (objects ?st') (timeline ?st')"
  let ?row = "\<lambda>p. the (process_metrics ?T p)"
  have vp: "valid_processes ?ps" and refs: "list_all (\<lambda>r. r < length (objects st)) (processes st)"
    using assms by (simp_all add: valid_run_def)
  have sched: "schedule_for ?ps ?T" using assms by (rule valid_run_schedule)
  have row: "process_metrics ?T p \<noteq> None \<and> pid (?row p) = process_id p
               \<and> 0 \<le> waiting_time (?row p) \<and> burst_time p \<le> turnaround_time (?row p)"
    if mem: "p \<in> set ?ps" for p
  proof -
    obtain c where "completion_time ?T (process_id p) = Some c" "arrival_time p + burst_time p \<le> c"
      using schedule_completion [OF vp sched mem] by blast
    then show ?thesis by (simp add: process_metrics_def)
  qed
  have same: "records (objects ?st') (processes ?st') = ?ps"
    using refs by (rule spec_submit_processes)
  have all: "list_all (\<lambda>p. process_metrics ?T p \<noteq> None) ?ps"
    using row by (simp add: list_all_iff)
  define M where "M = \<lparr>per_process = map ?row ?ps,
      total_waiting = sum_list (map waiting_time (map ?row ?ps)),
      total_turnaround = sum_list (map turnaround_time (map ?row ?ps)),
      total_time = makespan ?T,
      busy_time = sum_list (map burst_time ?ps),
      cpu_utilization = sum_list (map burst_time ?ps) / makespan ?T\<rparr>"
  have "shown_metrics ?st' = Some M"
    unfolding shown_metrics_def same using all by (simp add: metrics_def Let_def M_def)
  moreover have "list_all2 (\<lambda>p m. pid m = process_id p \<and> 0 \<le> waiting_time m
                                \<and> burst_time p \<le> turnaround_time m) ?ps (per_process M)"
    using row by (simp add: M_def list_all2_map2 list_all2_same)
  ultimately show ?thesis by blast
qed

theorem metrics_nonnegative_witness:
  "valid_run scenario1 \<lparr>algorithm = ''RR'', quantum = Some 2\<rparr>
   \<and> (\<exists>M. shown_metrics (onSubmit spec_strategies scenario1 \<lparr>algorithm = ''RR'', quantum = Some 2\<rparr>) = Some M
           \<and> list_all2 (\<lambda>p m. pid m = process_id p \<and> 0 \<le> waiting_time m
                                \<and> burst_time p \<le> turnaround_time m)
               (records (objects scenario1) (processes scenario1)) (per_process M))"
proof -
  have v: "valid_run scenario1 \<lparr>algorithm = ''RR'', quantum = Some 2\<rparr>"
    by (simp add: valid_run_def valid_processes_def safe_times_def whole_def MAX_SAFE_INTEGER_def
          dispatch_def scenario1_def records_def P1_def P2_def P3_def)
  show ?thesis
    using metrics_nonnegative [OF v] v by blast
qed

end
